theory Spec2Isabelle
  imports Main
begin

section \<open>Data model\<close>

text \<open>
  The values the script stores in the parameter store are what \<open>json.dumps\<close> makes of
  its two accumulators: an object of integers (replica counts) and an object of objects
  of integers (fleet capacities). The model keeps the JSON values of that class, already
  parsed: integers and objects. An object is an association list in insertion order, as a
  Python \<open>dict\<close> is.
\<close>

datatype json = JInt int | JObj "(string \<times> json) list"

text \<open>The exceptions that leave the script's functions.\<close>

datatype error =
    ApiException
  | ClientError
  | ParamValidationError
  | ParameterNotFound
  | ConfigException
  | AttributeError
  | IndexError
  | KeyError
  | TypeError
  | ValueError

text \<open>
  The objects of the platform: \<open>res.metadata.namespace\<close>, \<open>res.metadata.name\<close>,
  and \<open>spec.replicas\<close> of a Deployment or StatefulSet, \<open>spec.suspend\<close> of a CronJob.
\<close>

record k8s_object =
  namespace :: string
  name :: string

record workload = k8s_object +
  replicas :: int

record cronjob = k8s_object +
  suspend :: bool

datatype kind = Deployment | StatefulSet

text \<open>An entry of \<open>--k8s-resources\<close> or \<open>--exclude-k8s-resources\<close>.\<close>

record k8s_ref =
  ref_namespace :: string
  ref_kind :: string
  ref_name :: string

record asg =
  AutoScalingGroupName :: string
  MinSize :: int
  DesiredCapacity :: int
  MaxSize :: int

text \<open>Every request the script sends to one of its three clients, in order.\<close>

datatype call =
    ListWorkloads kind
  | ListCronJobs
  | ReadWorkload kind string string
  | ReadCronJob string string
  | PatchWorkload kind string string json
  | PatchCronJob string string bool
  | DescribeAllASGs
  | DescribeASG string
  | UpdateASG string int int int
  | GetParameter string
  | PutParameter string json

text \<open>
  The world the script runs in: the live objects of the platform, the fleet groups, the
  parameter store (parameter name to parsed value) and the log of requests.
\<close>

record world =
  deployments :: "workload list"
  statefulsets :: "workload list"
  cronjobs :: "cronjob list"
  asgs :: "asg list"
  ssm :: "(string \<times> json) list"
  kube_config_loads :: bool
  calls :: "call list"

type_synonym 'a io = "world \<Rightarrow> (error + 'a) \<times> world"

definition K8S_AWS_SSM_PARAMETER_NAME :: string where
  "K8S_AWS_SSM_PARAMETER_NAME = ''/kubernetes-aws-eks-auto-scaler/k8s-replica-counts''"

definition ASG_AWS_SSM_PARAMETER_NAME :: string where
  "ASG_AWS_SSM_PARAMETER_NAME = ''/kubernetes-aws-eks-auto-scaler/asg-config''"

section \<open>Python primitives\<close>

text \<open>
  \<open>str.lower\<close> on the ASCII letters; every other byte is kept. The three kinds the
  script compares with are ASCII, and no other character lowers to one of their letters.
\<close>

definition lower_char :: "char \<Rightarrow> char" where
  "lower_char c =
     (let n = (of_char c :: nat) in if 65 \<le> n \<and> n \<le> 90 then char_of (n + 32) else c)"

definition lower :: "string \<Rightarrow> string" where
  "lower s = map lower_char s"

text \<open>\<open>s.split(sep)\<close> for a separator of one character.\<close>

fun split :: "char \<Rightarrow> string \<Rightarrow> string list" where
  "split sep [] = [[]]"
| "split sep (c # cs) =
     (if c = sep then [] # split sep cs
      else (case split sep cs of [] \<Rightarrow> [[c]] | p # ps \<Rightarrow> (c # p) # ps))"

text \<open>\<open>d[k] = v\<close>: an existing key keeps its place, a new key goes to the end.\<close>

fun dict_set :: "(string \<times> 'v) list \<Rightarrow> string \<Rightarrow> 'v \<Rightarrow> (string \<times> 'v) list" where
  "dict_set [] k v = [(k, v)]"
| "dict_set ((k', v') # d) k v = (if k' = k then (k, v) # d else (k', v') # dict_set d k v)"

text \<open>\<open>d.update(new)\<close>.\<close>

fun dict_update :: "(string \<times> 'v) list \<Rightarrow> (string \<times> 'v) list \<Rightarrow> (string \<times> 'v) list" where
  "dict_update d [] = d"
| "dict_update d ((k, v) # new) = dict_update (dict_set d k v) new"

text \<open>\<open>not xs\<close> for an optional list: \<open>None\<close> and the empty list are false.\<close>

definition py_not :: "'a list option \<Rightarrow> bool" where
  "py_not xs = (case xs of None \<Rightarrow> True | Some l \<Rightarrow> l = [])"

section \<open>The clients\<close>

text \<open>
  The three services are modelled by what the script can see of them. The world changes
  by the script's own requests only. A patch changes the one field the script has set in
  the object it sends back (the replica count, the suspend flag); an update of a fleet
  group sets the three capacities it is given. A read, a patch or an update of something
  that does not exist is refused. The store keeps any value it is given under the
  parameter's name, and a describe or list call returns everything in one answer. Every
  request is appended to the log, whether it succeeds or not.
\<close>

definition log :: "call \<Rightarrow> world \<Rightarrow> world" where
  "log c w = w\<lparr>calls := calls w @ [c]\<rparr>"

subsection \<open>Parameter store\<close>

text \<open>
  \<open>json.loads(ssm_client.get_parameter(Name=n)["Parameter"]["Value"])\<close>: the stored value,
  or \<open>ParameterNotFound\<close>.
\<close>

definition get_parameter :: "string \<Rightarrow> json io" where
  "get_parameter n w =
     (case map_of (ssm w) n of
        None \<Rightarrow> (Inl ParameterNotFound, log (GetParameter n) w)
      | Some v \<Rightarrow> (Inr v, log (GetParameter n) w))"

text \<open>\<open>put_parameter(Name=n, Value=json.dumps(v), Type="String", Overwrite=True)\<close>.\<close>

definition put_parameter :: "string \<Rightarrow> json \<Rightarrow> world \<Rightarrow> world" where
  "put_parameter n v w = log (PutParameter n v) (w\<lparr>ssm := dict_set (ssm w) n v\<rparr>)"

subsection \<open>Orchestration platform\<close>

definition get_workloads :: "kind \<Rightarrow> world \<Rightarrow> workload list" where
  "get_workloads k w = (case k of Deployment \<Rightarrow> deployments w | StatefulSet \<Rightarrow> statefulsets w)"

definition set_workloads :: "kind \<Rightarrow> workload list \<Rightarrow> world \<Rightarrow> world" where
  "set_workloads k xs w =
     (case k of Deployment \<Rightarrow> w\<lparr>deployments := xs\<rparr> | StatefulSet \<Rightarrow> w\<lparr>statefulsets := xs\<rparr>)"

definition is_named :: "string \<Rightarrow> string \<Rightarrow> 'a k8s_object_scheme \<Rightarrow> bool" where
  "is_named nm ns obj = (name obj = nm \<and> namespace obj = ns)"

text \<open>\<open>list_deployment_for_all_namespaces().items\<close>, \<open>list_stateful_set_for_all_namespaces().items\<close>.\<close>

definition list_for_all_namespaces :: "kind \<Rightarrow> (workload list) io" where
  "list_for_all_namespaces k w = (Inr (get_workloads k w), log (ListWorkloads k) w)"

definition list_cron_job_for_all_namespaces :: "(cronjob list) io" where
  "list_cron_job_for_all_namespaces w = (Inr (cronjobs w), log ListCronJobs w)"

text \<open>\<open>read_namespaced_deployment(name, namespace)\<close> and its StatefulSet twin: 404 when absent.\<close>

definition read_namespaced :: "kind \<Rightarrow> string \<Rightarrow> string \<Rightarrow> workload io" where
  "read_namespaced k nm ns w =
     (case find (is_named nm ns) (get_workloads k w) of
        None \<Rightarrow> (Inl ApiException, log (ReadWorkload k nm ns) w)
      | Some obj \<Rightarrow> (Inr obj, log (ReadWorkload k nm ns) w))"

definition read_namespaced_cron_job :: "string \<Rightarrow> string \<Rightarrow> cronjob io" where
  "read_namespaced_cron_job nm ns w =
     (case find (is_named nm ns) (cronjobs w) of
        None \<Rightarrow> (Inl ApiException, log (ReadCronJob nm ns) w)
      | Some obj \<Rightarrow> (Inr obj, log (ReadCronJob nm ns) w))"

text \<open>
  \<open>patch_namespaced_deployment(name, namespace, body)\<close> and its StatefulSet twin, where
  the body is the object read before with \<open>spec.replicas\<close> set to \<open>v\<close>: the platform
  refuses a replica count that is not an integer and an object that does not exist.
\<close>

definition patch_namespaced :: "kind \<Rightarrow> string \<Rightarrow> string \<Rightarrow> json \<Rightarrow> unit io" where
  "patch_namespaced k nm ns v w =
     (case v of
        JObj _ \<Rightarrow> (Inl ApiException, log (PatchWorkload k nm ns v) w)
      | JInt r \<Rightarrow>
          if \<exists>obj \<in> set (get_workloads k w). is_named nm ns obj
          then (Inr (),
                log (PatchWorkload k nm ns v)
                  (set_workloads k
                     (map (\<lambda>obj. if is_named nm ns obj then obj\<lparr>replicas := r\<rparr> else obj)
                        (get_workloads k w)) w))
          else (Inl ApiException, log (PatchWorkload k nm ns v) w))"

definition patch_namespaced_cron_job :: "string \<Rightarrow> string \<Rightarrow> bool \<Rightarrow> unit io" where
  "patch_namespaced_cron_job nm ns b w =
     (if \<exists>obj \<in> set (cronjobs w). is_named nm ns obj
      then (Inr (),
            log (PatchCronJob nm ns b)
              (w\<lparr>cronjobs :=
                   map (\<lambda>obj. if is_named nm ns obj then obj\<lparr>suspend := b\<rparr> else obj)
                     (cronjobs w)\<rparr>))
      else (Inl ApiException, log (PatchCronJob nm ns b) w))"

subsection \<open>Fleet manager\<close>

text \<open>\<open>describe_auto_scaling_groups()["AutoScalingGroups"]\<close>.\<close>

definition describe_all_auto_scaling_groups :: "(asg list) io" where
  "describe_all_auto_scaling_groups w = (Inr (asgs w), log DescribeAllASGs w)"

text \<open>\<open>describe_auto_scaling_groups(AutoScalingGroupNames=[n])["AutoScalingGroups"]\<close>.\<close>

definition describe_auto_scaling_groups :: "string \<Rightarrow> (asg list) io" where
  "describe_auto_scaling_groups n w =
     (Inr (filter (\<lambda>g. AutoScalingGroupName g = n) (asgs w)), log (DescribeASG n) w)"

text \<open>\<open>update_auto_scaling_group(AutoScalingGroupName=n, MinSize=a, DesiredCapacity=b, MaxSize=c)\<close>.\<close>

definition update_auto_scaling_group :: "string \<Rightarrow> int \<Rightarrow> int \<Rightarrow> int \<Rightarrow> unit io" where
  "update_auto_scaling_group n a b c w =
     (if \<exists>g \<in> set (asgs w). AutoScalingGroupName g = n
      then (Inr (),
            log (UpdateASG n a b c)
              (w\<lparr>asgs :=
                   map (\<lambda>g. if AutoScalingGroupName g = n
                            then g\<lparr>MinSize := a, DesiredCapacity := b, MaxSize := c\<rparr> else g)
                     (asgs w)\<rparr>))
      else (Inl ClientError, log (UpdateASG n a b c) w))"

section \<open>The script\<close>

subsection \<open>Exclusion filters\<close>

definition filter_excluded_k8s_resources ::
  "string \<Rightarrow> ('a k8s_object_scheme) list \<Rightarrow> k8s_ref list option \<Rightarrow> ('a k8s_object_scheme) list" where
  "filter_excluded_k8s_resources kd resources exclude_list =
     (if py_not exclude_list then resources
      else
        let exclude_set =
              set (map (\<lambda>res. (ref_namespace res, lower (ref_kind res), ref_name res))
                     (the exclude_list))
        in filter (\<lambda>res. (namespace res, lower kd, name res) \<notin> exclude_set) resources)"

definition filter_excluded_asgs :: "string list \<Rightarrow> string list option \<Rightarrow> string list" where
  "filter_excluded_asgs asg_list exclude_list =
     (if py_not exclude_list then asg_list
      else filter (\<lambda>a. a \<notin> set (the exclude_list)) asg_list)"

subsection \<open>Merge into the store\<close>

definition update_ssm_parameter :: "string \<Rightarrow> (string \<times> json) list \<Rightarrow> unit io" where
  "update_ssm_parameter parameter_name new_data w =
     (case get_parameter parameter_name w of
        (Inl ParameterNotFound, w1) \<Rightarrow>
          (Inr (), put_parameter parameter_name (JObj (dict_update [] new_data)) w1)
      | (Inl e, w1) \<Rightarrow> (Inl e, w1)
      | (Inr (JInt _), w1) \<Rightarrow> (Inl AttributeError, w1)
      | (Inr (JObj existing_data), w1) \<Rightarrow>
          (Inr (), put_parameter parameter_name (JObj (dict_update existing_data new_data)) w1))"

subsection \<open>Sequencing\<close>

text \<open>One statement after another: an exception of the first skips the second.\<close>

definition io_bind :: "'a io \<Rightarrow> ('a \<Rightarrow> 'b io) \<Rightarrow> 'b io" where
  "io_bind m f w = (case m w of (Inl e, w1) \<Rightarrow> (Inl e, w1) | (Inr x, w1) \<Rightarrow> f x w1)"

definition io_return :: "'a \<Rightarrow> 'a io" where
  "io_return x w = (Inr x, w)"

text \<open>A computation that touches no client: its value or its exception.\<close>

definition lift :: "error + 'a \<Rightarrow> 'a io" where
  "lift r w = (r, w)"

text \<open>\<open>try: body except ssm_client.exceptions.ParameterNotFound: print(...)\<close>.\<close>

definition except_ParameterNotFound :: "unit io \<Rightarrow> unit io" where
  "except_ParameterNotFound body w =
     (case body w of (Inl ParameterNotFound, w1) \<Rightarrow> (Inr (), w1) | r \<Rightarrow> r)"

subsection \<open>Scale down\<close>

text \<open>The composite key \<open>f"deployment/{namespace}/{name}"\<close>, \<open>f"statefulset/{namespace}/{name}"\<close>.\<close>

definition kind_key :: "kind \<Rightarrow> string" where
  "kind_key k = (case k of Deployment \<Rightarrow> ''deployment'' | StatefulSet \<Rightarrow> ''statefulset'')"

definition record_key :: "kind \<Rightarrow> 'a k8s_object_scheme \<Rightarrow> string" where
  "record_key k obj = kind_key k @ ''/'' @ namespace obj @ ''/'' @ name obj"

text \<open>\<open>[read(res["name"], res["namespace"]) for res in refs]\<close>.\<close>

fun read_each :: "(string \<Rightarrow> string \<Rightarrow> 'a io) \<Rightarrow> k8s_ref list \<Rightarrow> ('a list) io" where
  "read_each rd [] w = (Inr [], w)"
| "read_each rd (res # rest) w =
     (case rd (ref_name res) (ref_namespace res) w of
        (Inl e, w1) \<Rightarrow> (Inl e, w1)
      | (Inr obj, w1) \<Rightarrow>
          (case read_each rd rest w1 of
             (Inl e, w2) \<Rightarrow> (Inl e, w2)
           | (Inr objs, w2) \<Rightarrow> (Inr (obj # objs), w2)))"

definition of_kind :: "string \<Rightarrow> k8s_ref list \<Rightarrow> k8s_ref list" where
  "of_kind kd refs = filter (\<lambda>res. lower (ref_kind res) = kd) refs"

text \<open>Lines 80 to 89: the objects to work on, listed or read one by one.\<close>

definition fetch_k8s_resources ::
  "k8s_ref list option \<Rightarrow> (workload list \<times> workload list \<times> cronjob list) io" where
  "fetch_k8s_resources k8s_resources =
     (if py_not k8s_resources then
        io_bind (list_for_all_namespaces Deployment) (\<lambda>all_deployments.
        io_bind (list_for_all_namespaces StatefulSet) (\<lambda>all_statefulsets.
        io_bind list_cron_job_for_all_namespaces (\<lambda>all_cronjobs.
        io_return (all_deployments, all_statefulsets, all_cronjobs))))
      else
        io_bind (read_each (read_namespaced Deployment)
                   (of_kind ''deployment'' (the k8s_resources))) (\<lambda>all_deployments.
        io_bind (read_each (read_namespaced StatefulSet)
                   (of_kind ''statefulset'' (the k8s_resources))) (\<lambda>all_statefulsets.
        io_bind (read_each read_namespaced_cron_job
                   (of_kind ''cronjob'' (the k8s_resources))) (\<lambda>all_cronjobs.
        io_return (all_deployments, all_statefulsets, all_cronjobs)))))"

text \<open>
  Lines 98 to 105 for Deployments and 107 to 114 for StatefulSets: the two loops differ
  in the kind only. The objects are the ones fetched before the loop.
\<close>

fun scale_down_workloads ::
  "kind \<Rightarrow> workload list \<Rightarrow> (string \<times> json) list \<Rightarrow> ((string \<times> json) list) io" where
  "scale_down_workloads k [] k8s_scaling_data w = (Inr k8s_scaling_data, w)"
| "scale_down_workloads k (d # ds) k8s_scaling_data w =
     (if replicas d > 0 then
        (case patch_namespaced k (name d) (namespace d) (JInt 0) w of
           (Inl e, w1) \<Rightarrow> (Inl e, w1)
         | (Inr _, w1) \<Rightarrow>
             scale_down_workloads k ds
               (dict_set k8s_scaling_data (record_key k d) (JInt (replicas d))) w1)
      else scale_down_workloads k ds k8s_scaling_data w)"

text \<open>
  Lines 116 to 119 with \<open>b = True\<close> and lines 186 to 189 with \<open>b = False\<close>: set the
  suspend flag of every CronJob of the list and patch it.
\<close>

fun patch_cronjobs :: "bool \<Rightarrow> cronjob list \<Rightarrow> unit io" where
  "patch_cronjobs b [] w = (Inr (), w)"
| "patch_cronjobs b (c # cs) w =
     (case patch_namespaced_cron_job (name c) (namespace c) b w of
        (Inl e, w1) \<Rightarrow> (Inl e, w1)
      | (Inr _, w1) \<Rightarrow> patch_cronjobs b cs w1)"

definition capacity_json :: "asg \<Rightarrow> json" where
  "capacity_json g =
     JObj [(''MinSize'', JInt (MinSize g)),
           (''DesiredCapacity'', JInt (DesiredCapacity g)),
           (''MaxSize'', JInt (MaxSize g))]"

text \<open>Lines 136 to 143: each group is described when its turn comes.\<close>

fun scale_down_asgs ::
  "string list \<Rightarrow> (string \<times> json) list \<Rightarrow> ((string \<times> json) list) io" where
  "scale_down_asgs [] asg_scaling_data w = (Inr asg_scaling_data, w)"
| "scale_down_asgs (asg_name # rest) asg_scaling_data w =
     (case describe_auto_scaling_groups asg_name w of
        (Inl e, w1) \<Rightarrow> (Inl e, w1)
      | (Inr [], w1) \<Rightarrow> (Inl IndexError, w1)
      | (Inr (g # _), w1) \<Rightarrow>
          if MinSize g > 0 \<or> DesiredCapacity g \<noteq> 0 \<or> MaxSize g \<noteq> 0 then
            (case update_auto_scaling_group asg_name 0 0 0 w1 of
               (Inl e, w2) \<Rightarrow> (Inl e, w2)
             | (Inr _, w2) \<Rightarrow>
                 scale_down_asgs rest (dict_set asg_scaling_data asg_name (capacity_json g)) w2)
          else scale_down_asgs rest asg_scaling_data w1)"

text \<open>Lines 122 to 123 and 146 to 147: an empty accumulator is not stored.\<close>

definition store_if_any :: "string \<Rightarrow> (string \<times> json) list \<Rightarrow> unit io" where
  "store_if_any parameter_name scaling_data =
     (if scaling_data \<noteq> [] then update_ssm_parameter parameter_name scaling_data
      else io_return ())"

text \<open>Lines 79 to 123.\<close>

definition scale_down_k8s :: "k8s_ref list option \<Rightarrow> k8s_ref list option \<Rightarrow> unit io" where
  "scale_down_k8s k8s_resources exclude_k8s_resources =
     io_bind (fetch_k8s_resources k8s_resources) (\<lambda>(all_deployments, all_statefulsets, all_cronjobs).
     io_bind (scale_down_workloads Deployment
                (filter_excluded_k8s_resources ''Deployment'' all_deployments exclude_k8s_resources)
                []) (\<lambda>k8s_scaling_data.
     io_bind (scale_down_workloads StatefulSet
                (filter_excluded_k8s_resources ''StatefulSet'' all_statefulsets exclude_k8s_resources)
                k8s_scaling_data) (\<lambda>k8s_scaling_data.
     io_bind (patch_cronjobs True
                (filter_excluded_k8s_resources ''CronJob'' all_cronjobs exclude_k8s_resources)) (\<lambda>_.
     store_if_any K8S_AWS_SSM_PARAMETER_NAME k8s_scaling_data))))"

text \<open>Lines 126 to 132.\<close>

definition fetch_asgs :: "string list option \<Rightarrow> (string list) io" where
  "fetch_asgs aws_asg_resources =
     (if py_not aws_asg_resources then
        io_bind describe_all_auto_scaling_groups (\<lambda>gs. io_return (map AutoScalingGroupName gs))
      else io_return (the aws_asg_resources))"

text \<open>Lines 125 to 147.\<close>

definition scale_down_aws :: "string list option \<Rightarrow> string list option \<Rightarrow> unit io" where
  "scale_down_aws aws_asg_resources exclude_aws_asg_resources =
     io_bind (fetch_asgs aws_asg_resources) (\<lambda>names.
     io_bind (scale_down_asgs (filter_excluded_asgs names exclude_aws_asg_resources) [])
       (\<lambda>asg_scaling_data.
     store_if_any ASG_AWS_SSM_PARAMETER_NAME asg_scaling_data))"

definition scale_down ::
  "k8s_ref list option \<Rightarrow> string list option \<Rightarrow> k8s_ref list option \<Rightarrow> string list option
   \<Rightarrow> unit io" where
  "scale_down k8s_resources aws_asg_resources exclude_k8s_resources exclude_aws_asg_resources =
     io_bind (scale_down_k8s k8s_resources exclude_k8s_resources) (\<lambda>_.
     scale_down_aws aws_asg_resources exclude_aws_asg_resources)"

subsection \<open>Scale up\<close>

text \<open>\<open>config[k]\<close>: an integer has no subscript, an object may lack the key.\<close>

definition subscript :: "json \<Rightarrow> string \<Rightarrow> error + json" where
  "subscript config k =
     (case config of
        JInt _ \<Rightarrow> Inl TypeError
      | JObj d \<Rightarrow> (case map_of d k of None \<Rightarrow> Inl KeyError | Some v \<Rightarrow> Inr v))"

text \<open>The client checks the type of a capacity before it sends the request.\<close>

definition int_param :: "json \<Rightarrow> error + int" where
  "int_param v = (case v of JInt i \<Rightarrow> Inr i | JObj _ \<Rightarrow> Inl ParamValidationError)"

text \<open>
  Line 161: the three subscripts are evaluated from left to right, then the client
  validates the three parameters, then the request is sent.
\<close>

definition restore_asg :: "string \<Rightarrow> json \<Rightarrow> unit io" where
  "restore_asg asg_name config =
     io_bind (lift (subscript config ''MinSize'')) (\<lambda>a.
     io_bind (lift (subscript config ''DesiredCapacity'')) (\<lambda>b.
     io_bind (lift (subscript config ''MaxSize'')) (\<lambda>c.
     io_bind (lift (int_param a)) (\<lambda>x.
     io_bind (lift (int_param b)) (\<lambda>y.
     io_bind (lift (int_param c)) (\<lambda>z.
     update_auto_scaling_group asg_name x y z))))))"

text \<open>Lines 159 to 161.\<close>

fun restore_asgs :: "(string \<times> json) list \<Rightarrow> unit io" where
  "restore_asgs [] w = (Inr (), w)"
| "restore_asgs ((asg_name, config) # rest) w =
     (case restore_asg asg_name config w of
        (Inl e, w1) \<Rightarrow> (Inl e, w1)
      | (Inr _, w1) \<Rightarrow> restore_asgs rest w1)"

text \<open>\<open>data.items()\<close>: only an object has items.\<close>

definition items :: "json \<Rightarrow> ((string \<times> json) list) io" where
  "items v w = (case v of JInt _ \<Rightarrow> (Inl AttributeError, w) | JObj d \<Rightarrow> (Inr d, w))"

text \<open>Lines 172 to 179 for one key already split.\<close>

definition restore_workload :: "string \<Rightarrow> string \<Rightarrow> string \<Rightarrow> json \<Rightarrow> unit io" where
  "restore_workload kd ns nm r =
     (if kd = ''deployment'' then
        io_bind (read_namespaced Deployment nm ns) (\<lambda>_. patch_namespaced Deployment nm ns r)
      else if kd = ''statefulset'' then
        io_bind (read_namespaced StatefulSet nm ns) (\<lambda>_. patch_namespaced StatefulSet nm ns r)
      else io_return ())"

text \<open>
  Lines 169 to 179: \<open>kind, namespace, name = key.split("/")\<close> raises \<open>ValueError\<close>
  unless the key has exactly three parts.
\<close>

fun restore_k8s :: "(string \<times> json) list \<Rightarrow> unit io" where
  "restore_k8s [] w = (Inr (), w)"
| "restore_k8s ((key, r) # rest) w =
     (case split CHR ''/'' key of
        [kd, ns, nm] \<Rightarrow>
          (case restore_workload kd ns nm r w of
             (Inl e, w1) \<Rightarrow> (Inl e, w1)
           | (Inr _, w1) \<Rightarrow> restore_k8s rest w1)
      | _ \<Rightarrow> (Inl ValueError, w))"

text \<open>Lines 156 to 163.\<close>

definition scale_up_aws :: "unit io" where
  "scale_up_aws =
     except_ParameterNotFound
       (io_bind (get_parameter ASG_AWS_SSM_PARAMETER_NAME) (\<lambda>asg_scaling_data.
        io_bind (items asg_scaling_data) restore_asgs))"

text \<open>Lines 166 to 181.\<close>

definition scale_up_k8s :: "unit io" where
  "scale_up_k8s =
     except_ParameterNotFound
       (io_bind (get_parameter K8S_AWS_SSM_PARAMETER_NAME) (\<lambda>k8s_scaling_data.
        io_bind (items k8s_scaling_data) restore_k8s))"

text \<open>Lines 184 to 189.\<close>

definition resume_cronjobs :: "unit io" where
  "resume_cronjobs = io_bind list_cron_job_for_all_namespaces (patch_cronjobs False)"

definition scale_up :: "unit io" where
  "scale_up = io_bind scale_up_aws (\<lambda>_. io_bind scale_up_k8s (\<lambda>_. resume_cronjobs))"

subsection \<open>Entry point\<close>

datatype action = ScaleDown | ScaleUp

record args =
  arg_action :: action
  arg_k8s_resources :: "k8s_ref list option"
  arg_exclude_k8s_resources :: "k8s_ref list option"
  arg_aws_asg_resources :: "string list option"
  arg_exclude_aws_asg_resources :: "string list option"

definition load_kubernetes_config :: "unit io" where
  "load_kubernetes_config w =
     (if kube_config_loads w then (Inr (), w) else (Inl ConfigException, w))"

definition main :: "args \<Rightarrow> unit io" where
  "main a =
     io_bind load_kubernetes_config (\<lambda>_.
       case arg_action a of
         ScaleDown \<Rightarrow>
           scale_down (arg_k8s_resources a) (arg_aws_asg_resources a)
             (arg_exclude_k8s_resources a) (arg_exclude_aws_asg_resources a)
       | ScaleUp \<Rightarrow> scale_up)"

text \<open>The status of the process: an exception that nothing catches ends it with 1.\<close>

definition exit_status :: "(error + unit) \<times> world \<Rightarrow> nat" where
  "exit_status r = (case fst r of Inl _ \<Rightarrow> 1 | Inr _ \<Rightarrow> 0)"

section \<open>Notions used in the statements and proofs\<close>

text \<open>
  A computation obeys a relation between the world before and the world after when
  every run of it, completed or not, is in the relation.
\<close>

definition obeys :: "(world \<Rightarrow> world \<Rightarrow> bool) \<Rightarrow> 'a io \<Rightarrow> bool" where
  "obeys R m = (\<forall>w. R w (snd (m w)))"

text \<open>The relations that compose: reflexive and transitive.\<close>

definition preorder_on_worlds :: "(world \<Rightarrow> world \<Rightarrow> bool) \<Rightarrow> bool" where
  "preorder_on_worlds R = ((\<forall>w. R w w) \<and> (\<forall>a b c. R a b \<longrightarrow> R b c \<longrightarrow> R a c))"

text \<open>What the relation is in the proofs below: a projection of the world is kept.\<close>

definition keeps :: "(world \<Rightarrow> 'b) \<Rightarrow> world \<Rightarrow> world \<Rightarrow> bool" where
  "keeps f w w' = (f w' = f w)"

text \<open>The log only grows.\<close>

definition log_grows :: "world \<Rightarrow> world \<Rightarrow> bool" where
  "log_grows w w' = (\<exists>cs. calls w' = calls w @ cs)"

text \<open>The requests that write to the parameter store.\<close>

fun is_PutParameter :: "call \<Rightarrow> bool" where
  "is_PutParameter (PutParameter n v) = True"
| "is_PutParameter c = False"

text \<open>The requests and the effect of the patch loop on CronJobs.\<close>

definition cron_patches :: "bool \<Rightarrow> cronjob list \<Rightarrow> call list" where
  "cron_patches b cs = map (\<lambda>c. PatchCronJob (name c) (namespace c) b) cs"

text \<open>Two objects with the same namespace and name.\<close>

definition same_object :: "'a k8s_object_scheme \<Rightarrow> 'b k8s_object_scheme \<Rightarrow> bool" where
  "same_object a b = (name a = name b \<and> namespace a = namespace b)"

text \<open>The live CronJobs after those of \<open>cs\<close> were patched.\<close>

definition suspend_those :: "bool \<Rightarrow> cronjob list \<Rightarrow> cronjob list \<Rightarrow> cronjob list" where
  "suspend_those b cs live =
     map (\<lambda>obj. if \<exists>c \<in> set cs. same_object c obj then obj\<lparr>suspend := b\<rparr> else obj) live"

text \<open>A cluster at rest and an empty store.\<close>

definition idle_world :: world where
  "idle_world =
     \<lparr>deployments = [\<lparr>namespace = ''default'', name = ''web'', replicas = 0\<rparr>],
      statefulsets = [],
      cronjobs = [\<lparr>namespace = ''default'', name = ''nightly'', suspend = True\<rparr>],
      asgs = [\<lparr>AutoScalingGroupName = ''workers'', MinSize = 0, DesiredCapacity = 0, MaxSize = 0\<rparr>],
      ssm = [],
      kube_config_loads = True,
      calls = []\<rparr>"

text \<open>The requests about CronJobs.\<close>

fun is_cron_request :: "call \<Rightarrow> bool" where
  "is_cron_request ListCronJobs = True"
| "is_cron_request (ReadCronJob nm ns) = True"
| "is_cron_request (PatchCronJob nm ns b) = True"
| "is_cron_request c = False"

text \<open>A store whose workload entry has a key that is not of the form kind/namespace/name.\<close>

definition malformed_key_world :: world where
  "malformed_key_world =
     \<lparr>deployments = [\<lparr>namespace = ''default'', name = ''web'', replicas = 0\<rparr>],
      statefulsets = [],
      cronjobs = [\<lparr>namespace = ''default'', name = ''nightly'', suspend = True\<rparr>],
      asgs = [],
      ssm = [(K8S_AWS_SSM_PARAMETER_NAME,
              JObj [(''web'', JInt 5), (''deployment/default/web'', JInt 5)])],
      kube_config_loads = True,
      calls = []\<rparr>"

text \<open>A store whose workload entry has a key with a capitalised kind.\<close>

definition capital_kind_world :: world where
  "capital_kind_world =
     \<lparr>deployments = [\<lparr>namespace = ''default'', name = ''web'', replicas = 0\<rparr>],
      statefulsets = [],
      cronjobs = [],
      asgs = [],
      ssm = [(K8S_AWS_SSM_PARAMETER_NAME,
              JObj [(''Deployment/default/api'', JInt 2), (''deployment/default/web'', JInt 5)])],
      kube_config_loads = True,
      calls = []\<rparr>"

text \<open>The entries of an optional list argument.\<close>

definition entries :: "'a list option \<Rightarrow> 'a list" where
  "entries xs = (case xs of None \<Rightarrow> [] | Some l \<Rightarrow> l)"

text \<open>
  An exclusion entry names an object of kind \<open>kd\<close>: same namespace, same name, and the
  same kind up to the case of its letters.
\<close>

definition excludes :: "string \<Rightarrow> k8s_ref \<Rightarrow> 'a k8s_object_scheme \<Rightarrow> bool" where
  "excludes kd e obj =
     (ref_namespace e = namespace obj \<and> lower (ref_kind e) = lower kd \<and> ref_name e = name obj)"

text \<open>The stored object a merge starts from: the empty object when the parameter is absent.\<close>

definition existing_data :: "string \<Rightarrow> world \<Rightarrow> (string \<times> json) list option" where
  "existing_data n w =
     (case map_of (ssm w) n of
        None \<Rightarrow> Some []
      | Some (JObj d) \<Rightarrow> Some d
      | Some (JInt _) \<Rightarrow> None)"

text \<open>Three Deployments of one namespace.\<close>

definition three_workloads :: "workload list" where
  "three_workloads =
     [\<lparr>namespace = ''default'', name = ''a'', replicas = 1\<rparr>,
      \<lparr>namespace = ''default'', name = ''b'', replicas = 2\<rparr>,
      \<lparr>namespace = ''default'', name = ''c'', replicas = 3\<rparr>]"

text \<open>A store that already holds one captured record.\<close>

definition merge_world :: world where
  "merge_world =
     \<lparr>deployments = [], statefulsets = [], cronjobs = [], asgs = [],
      ssm = [(K8S_AWS_SSM_PARAMETER_NAME, JObj [(''deployment/ns/a'', JInt 3)])],
      kube_config_loads = True,
      calls = []\<rparr>"

text \<open>The group the fleet manager describes first under a name.\<close>

definition described :: "string \<Rightarrow> world \<Rightarrow> asg option" where
  "described n w = find (\<lambda>g. AutoScalingGroupName g = n) (asgs w)"

text \<open>The record stored for a key in the object of a parameter, if any.\<close>

definition stored_record :: "string \<Rightarrow> string \<Rightarrow> world \<Rightarrow> json option" where
  "stored_record p k w =
     (case map_of (ssm w) p of
        None \<Rightarrow> None
      | Some (JInt _) \<Rightarrow> None
      | Some (JObj d) \<Rightarrow> map_of d k)"

text \<open>The update requests for one group.\<close>

fun is_update_of :: "string \<Rightarrow> call \<Rightarrow> bool" where
  "is_update_of n (UpdateASG m a b c) = (m = n)"
| "is_update_of n c = False"

text \<open>The fleet groups a scale-down works on: lines 126 to 132.\<close>

definition selected_asgs :: "string list option \<Rightarrow> string list option \<Rightarrow> world \<Rightarrow> string list" where
  "selected_asgs aws_asg_resources exclude_aws_asg_resources w =
     filter_excluded_asgs
       (if py_not aws_asg_resources then map AutoScalingGroupName (asgs w)
        else the aws_asg_resources)
       exclude_aws_asg_resources"

text \<open>The test of line 138.\<close>

definition not_scaled_down :: "asg \<Rightarrow> bool" where
  "not_scaled_down g = (MinSize g > 0 \<or> DesiredCapacity g \<noteq> 0 \<or> MaxSize g \<noteq> 0)"

text \<open>The group after \<open>update_auto_scaling_group(MinSize=0, DesiredCapacity=0, MaxSize=0)\<close>.\<close>

definition zeroed :: "asg \<Rightarrow> asg" where
  "zeroed g = g\<lparr>MinSize := 0, DesiredCapacity := 0, MaxSize := 0\<rparr>"

text \<open>The world is the same but for the log, which has grown.\<close>

definition same_but_log :: "world \<Rightarrow> world \<Rightarrow> bool" where
  "same_but_log w w' = (\<exists>cs. w' = w\<lparr>calls := calls w @ cs\<rparr>)"

text \<open>The world after the describe and the update of lines 137 and 141.\<close>

definition after_update :: "string \<Rightarrow> world \<Rightarrow> world" where
  "after_update n w =
     log (UpdateASG n 0 0 0)
       ((log (DescribeASG n) w)
          \<lparr>asgs := map (\<lambda>g. if AutoScalingGroupName g = n then zeroed g else g) (asgs w)\<rparr>)"

text \<open>A cluster at work: a Deployment, a StatefulSet, a CronJob, two fleet groups, an empty store.\<close>

definition busy_world :: world where
  "busy_world =
     \<lparr>deployments = [\<lparr>namespace = ''default'', name = ''web'', replicas = 5\<rparr>],
      statefulsets = [\<lparr>namespace = ''default'', name = ''db'', replicas = 2\<rparr>],
      cronjobs = [\<lparr>namespace = ''default'', name = ''nightly'', suspend = False\<rparr>],
      asgs = [\<lparr>AutoScalingGroupName = ''workers'', MinSize = 1, DesiredCapacity = 3, MaxSize = 5\<rparr>,
              \<lparr>AutoScalingGroupName = ''spare'', MinSize = 0, DesiredCapacity = 0, MaxSize = 0\<rparr>],
      ssm = [],
      kube_config_loads = True,
      calls = []\<rparr>"

text \<open>The same cluster after a scale-down of everything.\<close>

definition scaled_down_world :: world where
  "scaled_down_world =
     \<lparr>deployments = [\<lparr>namespace = ''default'', name = ''web'', replicas = 0\<rparr>],
      statefulsets = [\<lparr>namespace = ''default'', name = ''db'', replicas = 0\<rparr>],
      cronjobs = [\<lparr>namespace = ''default'', name = ''nightly'', suspend = True\<rparr>],
      asgs = [\<lparr>AutoScalingGroupName = ''workers'', MinSize = 0, DesiredCapacity = 0, MaxSize = 0\<rparr>,
              \<lparr>AutoScalingGroupName = ''spare'', MinSize = 0, DesiredCapacity = 0, MaxSize = 0\<rparr>],
      ssm = [(K8S_AWS_SSM_PARAMETER_NAME,
              JObj [(''deployment/default/web'', JInt 5), (''statefulset/default/db'', JInt 2)]),
             (ASG_AWS_SSM_PARAMETER_NAME,
              JObj [(''workers'',
                     JObj [(''MinSize'', JInt 1), (''DesiredCapacity'', JInt 3),
                           (''MaxSize'', JInt 5)])])],
      kube_config_loads = True,
      calls =
        [ListWorkloads Deployment, ListWorkloads StatefulSet, ListCronJobs,
         PatchWorkload Deployment ''web'' ''default'' (JInt 0),
         PatchWorkload StatefulSet ''db'' ''default'' (JInt 0),
         PatchCronJob ''nightly'' ''default'' True,
         GetParameter K8S_AWS_SSM_PARAMETER_NAME,
         PutParameter K8S_AWS_SSM_PARAMETER_NAME
           (JObj [(''deployment/default/web'', JInt 5), (''statefulset/default/db'', JInt 2)]),
         DescribeAllASGs, DescribeASG ''workers'', UpdateASG ''workers'' 0 0 0,
         DescribeASG ''spare'',
         GetParameter ASG_AWS_SSM_PARAMETER_NAME,
         PutParameter ASG_AWS_SSM_PARAMETER_NAME
           (JObj [(''workers'',
                   JObj [(''MinSize'', JInt 1), (''DesiredCapacity'', JInt 3),
                         (''MaxSize'', JInt 5)])])]\<rparr>"

text \<open>The live workloads after those of \<open>ds\<close> with a positive count were patched to zero.\<close>

definition zero_those :: "workload list \<Rightarrow> workload list \<Rightarrow> workload list" where
  "zero_those ds live =
     map (\<lambda>obj. if \<exists>d \<in> set ds. 0 < replicas d \<and> same_object d obj
                then obj\<lparr>replicas := 0\<rparr> else obj) live"

text \<open>The accumulator after the loop of lines 98 to 105 (or 107 to 114) on \<open>ds\<close>.\<close>

fun captured :: "kind \<Rightarrow> workload list \<Rightarrow> (string \<times> json) list \<Rightarrow> (string \<times> json) list" where
  "captured k [] acc = acc"
| "captured k (d # ds) acc =
     captured k ds
       (if 0 < replicas d then dict_set acc (record_key k d) (JInt (replicas d)) else acc)"

text \<open>The patches of that loop.\<close>

definition zero_patches :: "kind \<Rightarrow> workload list \<Rightarrow> call list" where
  "zero_patches k ds =
     map (\<lambda>d. PatchWorkload k (name d) (namespace d) (JInt 0)) (filter (\<lambda>d. 0 < replicas d) ds)"

text \<open>
  The objects of one kind a scale-down works on before exclusion: all the live ones, or
  the first live object under the name of each reference of that kind; none when a
  reference names no live object.
\<close>

definition lookups :: "k8s_ref list \<Rightarrow> 'a k8s_object_scheme list \<Rightarrow> 'a k8s_object_scheme option list" where
  "lookups refs live = map (\<lambda>res. find (is_named (ref_name res) (ref_namespace res)) live) refs"

definition wanted ::
  "k8s_ref list option \<Rightarrow> string \<Rightarrow> 'a k8s_object_scheme list \<Rightarrow> 'a k8s_object_scheme list option" where
  "wanted k8s_resources kd live =
     (if py_not k8s_resources then Some live
      else those (lookups (of_kind kd (the k8s_resources)) live))"

text \<open>What the patches of a scale-down do to one live object.\<close>

definition zero_if :: "workload list \<Rightarrow> workload \<Rightarrow> workload" where
  "zero_if ds obj =
     (if \<exists>d \<in> set ds. 0 < replicas d \<and> same_object d obj then obj\<lparr>replicas := 0\<rparr> else obj)"

definition suspend_if :: "cronjob list \<Rightarrow> cronjob \<Rightarrow> cronjob" where
  "suspend_if cs obj = (if \<exists>c \<in> set cs. same_object c obj then obj\<lparr>suspend := True\<rparr> else obj)"

text \<open>\<open>sep.join(parts)\<close> for a separator of one character.\<close>

fun join :: "char \<Rightarrow> string list \<Rightarrow> string" where
  "join sep [] = []"
| "join sep [x] = x"
| "join sep (x # y # ys) = x @ sep # join sep (y # ys)"

text \<open>\<open>obj.spec.replicas = r\<close> as far as the platform accepts it.\<close>

fun set_replicas :: "json \<Rightarrow> workload \<Rightarrow> workload" where
  "set_replicas (JInt n) obj = obj\<lparr>replicas := n\<rparr>"
| "set_replicas (JObj d) obj = obj"


text \<open>Namespaces and names of the platform have no slash.\<close>

definition slash_free :: "'a k8s_object_scheme list \<Rightarrow> bool" where
  "slash_free live =
     (\<forall>obj \<in> set live. CHR ''/'' \<notin> set (namespace obj) \<and> CHR ''/'' \<notin> set (name obj))"



text \<open>The stored workload object, when there is one, is a dictionary: its keys are distinct.\<close>

definition blob_distinct :: "world \<Rightarrow> bool" where
  "blob_distinct w =
     (case map_of (ssm w) K8S_AWS_SSM_PARAMETER_NAME of
        None \<Rightarrow> True
      | Some (JInt _) \<Rightarrow> True
      | Some (JObj d) \<Rightarrow> distinct (map fst d))"

text \<open>
  What the platform and the store guarantee: a kind has one object under a namespace and a
  name, namespaces and names have no slash, and a stored object has no key twice.
\<close>

definition wf_world :: "world \<Rightarrow> bool" where
  "wf_world w =
     (distinct (map (\<lambda>obj. (namespace obj, name obj)) (deployments w)) \<and>
      distinct (map (\<lambda>obj. (namespace obj, name obj)) (statefulsets w)) \<and>
      slash_free (deployments w) \<and> slash_free (statefulsets w) \<and> blob_distinct w)"









text \<open>
  The same cluster with a stale workload record instead: the workload entry holds the key
  of a Deployment, "gone", that the platform no longer has, and no key of the Deployment
  it does have.
\<close>

definition stale_workload_world :: world where
  "stale_workload_world =
     \<lparr>deployments = [\<lparr>namespace = ''default'', name = ''web'', replicas = 5\<rparr>],
      statefulsets = [],
      cronjobs = [\<lparr>namespace = ''default'', name = ''nightly'', suspend = False\<rparr>],
      asgs = [],
      ssm = [(K8S_AWS_SSM_PARAMETER_NAME, JObj [(''deployment/default/gone'', JInt 3)])],
      kube_config_loads = True,
      calls = []\<rparr>"

section \<open>Properties\<close>

subsection \<open>Frame lemmas\<close>

lemma obeysI: "(\<And>w. R w (snd (m w))) \<Longrightarrow> obeys R m"
  by (simp add: obeys_def)

lemma obeysD: "obeys R m \<Longrightarrow> R w (snd (m w))"
  by (simp add: obeys_def)

lemma obeysD2: "obeys R m \<Longrightarrow> m w = (r, w1) \<Longrightarrow> R w w1"
  by (auto simp: obeys_def dest: spec [of _ w])

lemma preorder_refl: "preorder_on_worlds R \<Longrightarrow> R w w"
  by (simp add: preorder_on_worlds_def)

lemma preorder_trans: "preorder_on_worlds R \<Longrightarrow> R a b \<Longrightarrow> R b c \<Longrightarrow> R a c"
  unfolding preorder_on_worlds_def by blast

lemma obeys_bind:
  assumes "preorder_on_worlds R" and "obeys R m" and "\<And>x. obeys R (g x)"
  shows "obeys R (io_bind m g)"
proof (rule obeysI)
  fix w
  obtain r w1 where m: "m w = (r, w1)" by (cases "m w")
  have w1: "R w w1" using assms(2) m by (rule obeysD2)
  show "R w (snd (io_bind m g w))"
  proof (cases r)
    case (Inl e)
    then show ?thesis using m w1 by (simp add: io_bind_def)
  next
    case (Inr x)
    have "R w1 (snd (g x w1))" using assms(3) by (rule obeysD)
    then have "R w (snd (g x w1))" using assms(1) w1 preorder_trans by blast
    then show ?thesis using Inr m by (simp add: io_bind_def)
  qed
qed

lemma obeys_return: "preorder_on_worlds R \<Longrightarrow> obeys R (io_return x)"
  by (simp add: obeys_def io_return_def preorder_refl)

lemma obeys_lift: "preorder_on_worlds R \<Longrightarrow> obeys R (lift r)"
  by (simp add: obeys_def lift_def preorder_refl)

lemma obeys_items: "preorder_on_worlds R \<Longrightarrow> obeys R (items v)"
  by (simp add: obeys_def items_def preorder_refl split: json.splits)

lemma obeys_except:
  assumes "obeys R m"
  shows "obeys R (except_ParameterNotFound m)"
proof (rule obeysI)
  fix w
  obtain r w1 where m: "m w = (r, w1)" by (cases "m w")
  have "R w w1" using assms m by (rule obeysD2)
  then show "R w (snd (except_ParameterNotFound m w))"
    using m by (simp add: except_ParameterNotFound_def split: sum.splits error.splits)
qed

text \<open>The loops: one step obeys the relation, so the loop does.\<close>

lemma obeys_restore_asg:
  assumes "preorder_on_worlds R" and "\<And>a b c. obeys R (update_auto_scaling_group n a b c)"
  shows "obeys R (restore_asg n config)"
  unfolding restore_asg_def
  by (intro obeys_bind obeys_lift assms)

lemma obeys_restore_asgs:
  assumes "preorder_on_worlds R"
    and "\<And>n a b c. obeys R (update_auto_scaling_group n a b c)"
  shows "obeys R (restore_asgs d)"
proof (rule obeysI)
  fix w
  show "R w (snd (restore_asgs d w))"
  proof (induction d arbitrary: w)
    case Nil
    then show ?case using assms(1) by (simp add: preorder_refl)
  next
    case (Cons p d)
    obtain n config where p: "p = (n, config)" by (cases p)
    obtain r w1 where s: "restore_asg n config w = (r, w1)" by (cases "restore_asg n config w")
    have "obeys R (restore_asg n config)" by (rule obeys_restore_asg) (rule assms)+
    then have 1: "R w w1" using s by (rule obeysD2)
    show ?case
    proof (cases r)
      case (Inl e)
      then show ?thesis using p s 1 by simp
    next
      case (Inr x)
      have "R w (snd (restore_asgs d w1))" using assms(1) 1 Cons.IH [of w1] by (rule preorder_trans)
      then show ?thesis using Inr p s by simp
    qed
  qed
qed

lemma obeys_restore_workload:
  assumes "preorder_on_worlds R"
    and "\<And>k. obeys R (read_namespaced k nm ns)"
    and "\<And>k. obeys R (patch_namespaced k nm ns r)"
  shows "obeys R (restore_workload kd ns nm r)"
  unfolding restore_workload_def
  by (simp add: obeys_bind obeys_return assms)

lemma obeys_restore_k8s:
  assumes "preorder_on_worlds R"
    and "\<And>k nm ns. obeys R (read_namespaced k nm ns)"
    and "\<And>k nm ns r. obeys R (patch_namespaced k nm ns r)"
  shows "obeys R (restore_k8s d)"
proof (rule obeysI)
  fix w
  show "R w (snd (restore_k8s d w))"
  proof (induction d arbitrary: w)
    case Nil
    then show ?case using assms(1) by (simp add: preorder_refl)
  next
    case (Cons p d)
    obtain key r where p: "p = (key, r)" by (cases p)
    show ?case
    proof (cases "\<exists>kd ns nm. split CHR ''/'' key = [kd, ns, nm]")
      case True
      then obtain kd ns nm where k: "split CHR ''/'' key = [kd, ns, nm]" by blast
      obtain x w1 where s: "restore_workload kd ns nm r w = (x, w1)"
        by (cases "restore_workload kd ns nm r w")
      have "obeys R (restore_workload kd ns nm r)"
        by (rule obeys_restore_workload) (rule assms)+
      then have 1: "R w w1" using s by (rule obeysD2)
      show ?thesis
      proof (cases x)
        case (Inl e)
        then show ?thesis using p k s 1 by simp
      next
        case (Inr u)
        have "R w (snd (restore_k8s d w1))"
          using assms(1) 1 Cons.IH [of w1] by (rule preorder_trans)
        then show ?thesis using Inr p k s by simp
      qed
    next
      case False
      then show ?thesis using p assms(1) by (simp add: preorder_refl split: list.splits)
    qed
  qed
qed

lemma obeys_patch_cronjobs:
  assumes "preorder_on_worlds R"
    and "\<And>nm ns. obeys R (patch_namespaced_cron_job nm ns b)"
  shows "obeys R (patch_cronjobs b cs)"
proof (rule obeysI)
  fix w
  show "R w (snd (patch_cronjobs b cs w))"
  proof (induction cs arbitrary: w)
    case Nil
    then show ?case using assms(1) by (simp add: preorder_refl)
  next
    case (Cons c cs)
    obtain x w1 where s: "patch_namespaced_cron_job (name c) (namespace c) b w = (x, w1)"
      by (cases "patch_namespaced_cron_job (name c) (namespace c) b w")
    have 1: "R w w1" using assms(2) s by (rule obeysD2)
    show ?case
    proof (cases x)
      case (Inl e)
      then show ?thesis using s 1 by simp
    next
      case (Inr u)
      have "R w (snd (patch_cronjobs b cs w1))"
        using assms(1) 1 Cons.IH [of w1] by (rule preorder_trans)
      then show ?thesis using Inr s by simp
    qed
  qed
qed

lemma obeys_read_each:
  assumes "preorder_on_worlds R" and "\<And>nm ns. obeys R (rd nm ns)"
  shows "obeys R (read_each rd refs)"
proof (rule obeysI)
  fix w
  show "R w (snd (read_each rd refs w))"
  proof (induction refs arbitrary: w)
    case Nil
    then show ?case using assms(1) by (simp add: preorder_refl)
  next
    case (Cons res refs)
    obtain x w1 where s: "rd (ref_name res) (ref_namespace res) w = (x, w1)"
      by (cases "rd (ref_name res) (ref_namespace res) w")
    have 1: "R w w1" using assms(2) s by (rule obeysD2)
    show ?case
    proof (cases x)
      case (Inl e)
      then show ?thesis using s 1 by simp
    next
      case (Inr obj)
      have 2: "R w (snd (read_each rd refs w1))"
        using assms(1) 1 Cons.IH [of w1] by (rule preorder_trans)
      obtain y w2 where t: "read_each rd refs w1 = (y, w2)" by (cases "read_each rd refs w1")
      then show ?thesis using Inr s 2 by (cases y) simp_all
    qed
  qed
qed

lemma obeys_scale_down_workloads:
  assumes "preorder_on_worlds R"
    and "\<And>nm ns. obeys R (patch_namespaced k nm ns (JInt 0))"
  shows "obeys R (scale_down_workloads k ds acc)"
proof (rule obeysI)
  fix w
  show "R w (snd (scale_down_workloads k ds acc w))"
  proof (induction ds arbitrary: w acc)
    case Nil
    then show ?case using assms(1) by (simp add: preorder_refl)
  next
    case (Cons d ds)
    show ?case
    proof (cases "replicas d > 0")
      case False
      then show ?thesis using Cons.IH [of w acc] by simp
    next
      case True
      obtain x w1 where s: "patch_namespaced k (name d) (namespace d) (JInt 0) w = (x, w1)"
        by (cases "patch_namespaced k (name d) (namespace d) (JInt 0) w")
      have 1: "R w w1" using assms(2) s by (rule obeysD2)
      show ?thesis
      proof (cases x)
        case (Inl e)
        then show ?thesis using True s 1 by simp
      next
        case (Inr u)
        have "R w (snd (scale_down_workloads k ds
                          (dict_set acc (record_key k d) (JInt (replicas d))) w1))"
          using assms(1) 1 Cons.IH by (rule preorder_trans)
        then show ?thesis using Inr True s by simp
      qed
    qed
  qed
qed

lemma obeys_scale_down_asgs:
  assumes "preorder_on_worlds R"
    and "\<And>n. obeys R (describe_auto_scaling_groups n)"
    and "\<And>n. obeys R (update_auto_scaling_group n 0 0 0)"
  shows "obeys R (scale_down_asgs names acc)"
proof (rule obeysI)
  fix w
  show "R w (snd (scale_down_asgs names acc w))"
  proof (induction names arbitrary: w acc)
    case Nil
    then show ?case using assms(1) by (simp add: preorder_refl)
  next
    case (Cons n names)
    obtain x w1 where s: "describe_auto_scaling_groups n w = (x, w1)"
      by (cases "describe_auto_scaling_groups n w")
    have 1: "R w w1" using assms(2) s by (rule obeysD2)
    show ?case
    proof (cases x)
      case (Inl e)
      then show ?thesis using s 1 by simp
    next
      case (Inr gs)
      show ?thesis
      proof (cases gs)
        case Nil
        then show ?thesis using Inr s 1 by simp
      next
        case (Cons g rest)
        show ?thesis
        proof (cases "MinSize g > 0 \<or> DesiredCapacity g \<noteq> 0 \<or> MaxSize g \<noteq> 0")
          case False
          have "R w (snd (scale_down_asgs names acc w1))"
            using assms(1) 1 Cons.IH by (rule preorder_trans)
          then show ?thesis using False Inr Cons s by simp
        next
          case True
          obtain y w2 where u: "update_auto_scaling_group n 0 0 0 w1 = (y, w2)"
            by (cases "update_auto_scaling_group n 0 0 0 w1")
          have "R w1 w2" using assms(3) u by (rule obeysD2)
          with 1 have 2: "R w w2" using assms(1) preorder_trans by blast
          show ?thesis
          proof (cases y)
            case (Inl e)
            then show ?thesis using True Inr Cons s u 2 by simp
          next
            case (Inr v)
            have "R w (snd (scale_down_asgs names (dict_set acc n (capacity_json g)) w2))"
              using assms(1) 2 Cons.IH by (rule preorder_trans)
            then show ?thesis using True \<open>x = Inr gs\<close> Cons s u Inr by simp
          qed
        qed
      qed
    qed
  qed
qed

lemma obeys_update_ssm_parameter:
  assumes "preorder_on_worlds R"
    and "obeys R (get_parameter n)"
    and "\<And>v w. R w (put_parameter n v w)"
  shows "obeys R (update_ssm_parameter n new_data)"
proof (rule obeysI)
  fix w
  obtain x w1 where s: "get_parameter n w = (x, w1)" by (cases "get_parameter n w")
  have 1: "R w w1" using assms(2) s by (rule obeysD2)
  have 2: "R w (put_parameter n v w1)" for v
    using assms(1) 1 assms(3) by (rule preorder_trans)
  show "R w (snd (update_ssm_parameter n new_data w))"
    using s 1 2 by (simp add: update_ssm_parameter_def split: sum.splits error.splits json.splits)
qed

lemma obeys_store_if_any:
  assumes "preorder_on_worlds R"
    and "obeys R (get_parameter n)"
    and "\<And>v w. R w (put_parameter n v w)"
  shows "obeys R (store_if_any n scaling_data)"
  unfolding store_if_any_def
  using assms by (simp add: obeys_update_ssm_parameter obeys_return)

lemma obeys_fetch_k8s_resources:
  assumes "preorder_on_worlds R"
    and "\<And>k. obeys R (list_for_all_namespaces k)"
    and "obeys R list_cron_job_for_all_namespaces"
    and "\<And>k nm ns. obeys R (read_namespaced k nm ns)"
    and "\<And>nm ns. obeys R (read_namespaced_cron_job nm ns)"
  shows "obeys R (fetch_k8s_resources k8s_resources)"
  unfolding fetch_k8s_resources_def
  by (auto intro!: obeys_bind obeys_return obeys_read_each assms)

lemma obeys_scale_down_k8s:
  assumes "preorder_on_worlds R"
    and "\<And>k. obeys R (list_for_all_namespaces k)"
    and "obeys R list_cron_job_for_all_namespaces"
    and "\<And>k nm ns. obeys R (read_namespaced k nm ns)"
    and "\<And>nm ns. obeys R (read_namespaced_cron_job nm ns)"
    and "\<And>k nm ns. obeys R (patch_namespaced k nm ns (JInt 0))"
    and "\<And>nm ns. obeys R (patch_namespaced_cron_job nm ns True)"
    and "obeys R (get_parameter K8S_AWS_SSM_PARAMETER_NAME)"
    and "\<And>v w. R w (put_parameter K8S_AWS_SSM_PARAMETER_NAME v w)"
  shows "obeys R (scale_down_k8s k8s_resources exclude_k8s_resources)"
  unfolding scale_down_k8s_def
  by (auto intro!: obeys_bind obeys_fetch_k8s_resources obeys_scale_down_workloads
        obeys_patch_cronjobs obeys_store_if_any assms)

lemma obeys_fetch_asgs:
  assumes "preorder_on_worlds R" and "obeys R describe_all_auto_scaling_groups"
  shows "obeys R (fetch_asgs aws_asg_resources)"
  unfolding fetch_asgs_def
  by (auto intro!: obeys_bind obeys_return assms)

lemma obeys_scale_down_aws:
  assumes "preorder_on_worlds R"
    and "obeys R describe_all_auto_scaling_groups"
    and "\<And>n. obeys R (describe_auto_scaling_groups n)"
    and "\<And>n. obeys R (update_auto_scaling_group n 0 0 0)"
    and "obeys R (get_parameter ASG_AWS_SSM_PARAMETER_NAME)"
    and "\<And>v w. R w (put_parameter ASG_AWS_SSM_PARAMETER_NAME v w)"
  shows "obeys R (scale_down_aws aws_asg_resources exclude_aws_asg_resources)"
  unfolding scale_down_aws_def
  by (auto intro!: obeys_bind obeys_fetch_asgs obeys_scale_down_asgs
        obeys_store_if_any assms)

lemma obeys_scale_up_aws:
  assumes "preorder_on_worlds R"
    and "obeys R (get_parameter ASG_AWS_SSM_PARAMETER_NAME)"
    and "\<And>n a b c. obeys R (update_auto_scaling_group n a b c)"
  shows "obeys R scale_up_aws"
  unfolding scale_up_aws_def
  by (intro obeys_except obeys_bind obeys_items obeys_restore_asgs assms)

lemma obeys_scale_up_k8s:
  assumes "preorder_on_worlds R"
    and "obeys R (get_parameter K8S_AWS_SSM_PARAMETER_NAME)"
    and "\<And>k nm ns. obeys R (read_namespaced k nm ns)"
    and "\<And>k nm ns r. obeys R (patch_namespaced k nm ns r)"
  shows "obeys R scale_up_k8s"
  unfolding scale_up_k8s_def
  by (intro obeys_except obeys_bind obeys_items obeys_restore_k8s assms)

lemma obeys_resume_cronjobs:
  assumes "preorder_on_worlds R"
    and "obeys R list_cron_job_for_all_namespaces"
    and "\<And>nm ns. obeys R (patch_namespaced_cron_job nm ns False)"
  shows "obeys R resume_cronjobs"
  unfolding resume_cronjobs_def
  by (intro obeys_bind obeys_patch_cronjobs assms)

lemma obeys_scale_up:
  assumes "preorder_on_worlds R"
    and "\<And>n. obeys R (get_parameter n)"
    and "\<And>n a b c. obeys R (update_auto_scaling_group n a b c)"
    and "\<And>k nm ns. obeys R (read_namespaced k nm ns)"
    and "\<And>k nm ns r. obeys R (patch_namespaced k nm ns r)"
    and "obeys R list_cron_job_for_all_namespaces"
    and "\<And>nm ns. obeys R (patch_namespaced_cron_job nm ns False)"
  shows "obeys R scale_up"
  unfolding scale_up_def
  by (intro obeys_bind obeys_scale_up_aws obeys_scale_up_k8s obeys_resume_cronjobs assms)

lemma preorder_keeps: "preorder_on_worlds (keeps f)"
  by (simp add: preorder_on_worlds_def keeps_def)

lemma preorder_log_grows: "preorder_on_worlds log_grows"
  by (auto simp: preorder_on_worlds_def log_grows_def)

lemmas client_defs =
  get_parameter_def put_parameter_def list_for_all_namespaces_def
  list_cron_job_for_all_namespaces_def read_namespaced_def read_namespaced_cron_job_def
  patch_namespaced_def patch_namespaced_cron_job_def describe_all_auto_scaling_groups_def
  describe_auto_scaling_groups_def update_auto_scaling_group_def log_def
  get_workloads_def set_workloads_def

lemmas client_splits = option.splits json.splits kind.splits

lemma scale_up_keeps_ssm: "obeys (keeps ssm) scale_up"
  by (rule obeys_scale_up)
     (simp_all add: preorder_keeps, simp_all add: obeys_def keeps_def client_defs split: client_splits)

lemma scale_up_keeps_puts: "obeys (keeps (\<lambda>w. filter is_PutParameter (calls w))) scale_up"
  by (rule obeys_scale_up)
     (simp_all add: preorder_keeps, simp_all add: obeys_def keeps_def client_defs split: client_splits)

lemma scale_up_log_grows: "obeys log_grows scale_up"
  by (rule obeys_scale_up)
     (simp_all add: preorder_log_grows, simp_all add: obeys_def log_grows_def client_defs split: client_splits)

subsection \<open>Scale-up reads the store only\<close>

text \<open>
  Claim C9. Scale-up never writes to the parameter store: whatever the two stored values
  are, and whether the run completes or raises, the store after the run is the store
  before it, and the run adds no \<open>put_parameter\<close> request to the log.
\<close>

theorem scale_up_never_writes:
  "ssm (snd (scale_up w)) = ssm w \<and>
   filter is_PutParameter (calls (snd (scale_up w))) = filter is_PutParameter (calls w)"
  using obeysD [OF scale_up_keeps_ssm, of w] obeysD [OF scale_up_keeps_puts, of w]
  by (simp add: keeps_def)

text \<open>After the scale-down of the cluster at work, a scale-up leaves both stored objects in place.\<close>

theorem scale_up_never_writes_witness:
  "ssm (snd (scale_up scaled_down_world)) =
     [(K8S_AWS_SSM_PARAMETER_NAME,
       JObj [(''deployment/default/web'', JInt 5), (''statefulset/default/db'', JInt 2)]),
      (ASG_AWS_SSM_PARAMETER_NAME,
       JObj [(''workers'',
              JObj [(''MinSize'', JInt 1), (''DesiredCapacity'', JInt 3), (''MaxSize'', JInt 5)])])] \<and>
   length (filter is_PutParameter (calls (snd (scale_up scaled_down_world)))) = 2"
  using scale_up_never_writes [of scaled_down_world]
  by (simp add: scaled_down_world_def)

subsection \<open>Sequencing\<close>

lemma io_bind_Inr:
  "io_bind m f w = (Inr y, w') \<longleftrightarrow> (\<exists>x w1. m w = (Inr x, w1) \<and> f x w1 = (Inr y, w'))"
  by (cases "m w") (auto simp: io_bind_def split: sum.splits)

lemma io_bind_Inl:
  "io_bind m f w = (Inl e, w') \<longleftrightarrow>
     m w = (Inl e, w') \<or> (\<exists>x w1. m w = (Inr x, w1) \<and> f x w1 = (Inl e, w'))"
  by (cases "m w") (auto simp: io_bind_def split: sum.splits)

lemma io_bind_eq_Inr: "m w = (Inr x, w1) \<Longrightarrow> io_bind m f w = f x w1"
  by (simp add: io_bind_def)

lemma io_bind_eq_Inl: "m w = (Inl e, w1) \<Longrightarrow> io_bind m f w = (Inl e, w1)"
  by (simp add: io_bind_def)

subsection \<open>The patch loop on CronJobs\<close>

lemma same_object_refl [simp]: "same_object a a"
  by (simp add: same_object_def)

lemma patch_cronjobs_exact:
  assumes "\<forall>c \<in> set cs. \<exists>obj \<in> set (cronjobs w). same_object c obj"
  shows "patch_cronjobs b cs w =
           (Inr (), w\<lparr>cronjobs := suspend_those b cs (cronjobs w),
                      calls := calls w @ cron_patches b cs\<rparr>)"
  using assms
proof (induction cs arbitrary: w)
  case Nil
  then show ?case by (simp add: suspend_those_def cron_patches_def)
next
  case (Cons c cs)
  let ?w1 = "log (PatchCronJob (name c) (namespace c) b)
               (w\<lparr>cronjobs := map (\<lambda>obj. if is_named (name c) (namespace c) obj
                                         then obj\<lparr>suspend := b\<rparr> else obj) (cronjobs w)\<rparr>)"
  have ex: "\<exists>obj \<in> set (cronjobs w). is_named (name c) (namespace c) obj"
    using Cons.prems by (auto simp: same_object_def is_named_def)
  have step: "patch_namespaced_cron_job (name c) (namespace c) b w = (Inr (), ?w1)"
    using ex by (simp add: patch_namespaced_cron_job_def)
  have pre: "\<forall>d \<in> set cs. \<exists>obj \<in> set (cronjobs ?w1). same_object d obj"
  proof
    fix d assume "d \<in> set cs"
    then obtain obj where o: "obj \<in> set (cronjobs w)" "same_object d obj"
      using Cons.prems by auto
    let ?o' = "if is_named (name c) (namespace c) obj then obj\<lparr>suspend := b\<rparr> else obj"
    have "?o' \<in> set (cronjobs ?w1)" using o(1) by (simp add: log_def)
    moreover have "same_object d ?o'" using o(2) by (simp add: same_object_def)
    ultimately show "\<exists>obj \<in> set (cronjobs ?w1). same_object d obj" by blast
  qed
  have live: "suspend_those b cs (cronjobs ?w1) = suspend_those b (c # cs) (cronjobs w)"
    by (auto simp: suspend_those_def log_def same_object_def is_named_def)
  show ?case
    using step Cons.IH [OF pre] live
    by (simp add: cron_patches_def log_def)
qed

lemma suspend_those_all: "suspend_those b live live = map (\<lambda>obj. obj\<lparr>suspend := b\<rparr>) live"
  by (auto simp: suspend_those_def)

lemma resume_cronjobs_exact:
  "resume_cronjobs w =
     (Inr (), w\<lparr>cronjobs := map (\<lambda>obj. obj\<lparr>suspend := False\<rparr>) (cronjobs w),
               calls := calls w @ ListCronJobs # cron_patches False (cronjobs w)\<rparr>)"
proof -
  let ?w1 = "log ListCronJobs w"
  have "\<forall>c \<in> set (cronjobs w). \<exists>obj \<in> set (cronjobs ?w1). same_object c obj"
    using same_object_refl by (fastforce simp: log_def)
  from patch_cronjobs_exact [OF this, of False]
  show ?thesis
    by (simp add: resume_cronjobs_def io_bind_def list_cron_job_for_all_namespaces_def
          suspend_those_all log_def)
qed

subsection \<open>Scale-up with an empty store\<close>

lemma get_parameter_absent:
  "map_of (ssm w) n = None \<Longrightarrow> get_parameter n w = (Inl ParameterNotFound, log (GetParameter n) w)"
  by (simp add: get_parameter_def)

lemma get_parameter_present:
  "map_of (ssm w) n = Some v \<Longrightarrow> get_parameter n w = (Inr v, log (GetParameter n) w)"
  by (simp add: get_parameter_def)

lemma scale_up_aws_absent:
  "map_of (ssm w) ASG_AWS_SSM_PARAMETER_NAME = None \<Longrightarrow>
   scale_up_aws w = (Inr (), log (GetParameter ASG_AWS_SSM_PARAMETER_NAME) w)"
  by (simp add: scale_up_aws_def except_ParameterNotFound_def io_bind_def get_parameter_absent)

lemma scale_up_k8s_absent:
  "map_of (ssm w) K8S_AWS_SSM_PARAMETER_NAME = None \<Longrightarrow>
   scale_up_k8s w = (Inr (), log (GetParameter K8S_AWS_SSM_PARAMETER_NAME) w)"
  by (simp add: scale_up_k8s_def except_ParameterNotFound_def io_bind_def get_parameter_absent)

lemma scale_up_absent:
  assumes "map_of (ssm w) ASG_AWS_SSM_PARAMETER_NAME = None"
    and "map_of (ssm w) K8S_AWS_SSM_PARAMETER_NAME = None"
  shows "scale_up w =
           (Inr (), w\<lparr>cronjobs := map (\<lambda>obj. obj\<lparr>suspend := False\<rparr>) (cronjobs w),
                      calls := calls w @
                        [GetParameter ASG_AWS_SSM_PARAMETER_NAME,
                         GetParameter K8S_AWS_SSM_PARAMETER_NAME, ListCronJobs] @
                        cron_patches False (cronjobs w)\<rparr>)"
proof -
  let ?w1 = "log (GetParameter ASG_AWS_SSM_PARAMETER_NAME) w"
  let ?w2 = "log (GetParameter K8S_AWS_SSM_PARAMETER_NAME) ?w1"
  have 1: "scale_up_aws w = (Inr (), ?w1)" using assms(1) by (rule scale_up_aws_absent)
  have "map_of (ssm ?w1) K8S_AWS_SSM_PARAMETER_NAME = None" using assms(2) by (simp add: log_def)
  then have 2: "scale_up_k8s ?w1 = (Inr (), ?w2)" by (rule scale_up_k8s_absent)
  have "scale_up w = resume_cronjobs ?w2"
    by (simp add: scale_up_def io_bind_def 1 2)
  then show ?thesis
    by (simp add: resume_cronjobs_exact log_def)
qed

text \<open>
  Claim C5. When neither store entry exists, scale-up completes: it sends the two reads
  of the store, lists the CronJobs and patches each of them with suspend false, and
  sends nothing else (no workload patch, no fleet update); the process exits with
  status zero.
\<close>

theorem scale_up_empty_store:
  assumes "map_of (ssm w) ASG_AWS_SSM_PARAMETER_NAME = None"
    and "map_of (ssm w) K8S_AWS_SSM_PARAMETER_NAME = None"
  shows "scale_up w =
           (Inr (), w\<lparr>cronjobs := map (\<lambda>obj. obj\<lparr>suspend := False\<rparr>) (cronjobs w),
                      calls := calls w @
                        [GetParameter ASG_AWS_SSM_PARAMETER_NAME,
                         GetParameter K8S_AWS_SSM_PARAMETER_NAME, ListCronJobs] @
                        cron_patches False (cronjobs w)\<rparr>) \<and>
         (kube_config_loads w \<longrightarrow> exit_status (main (a\<lparr>arg_action := ScaleUp\<rparr>) w) = 0)"
proof -
  note up = scale_up_absent [OF assms]
  have "exit_status (main (a\<lparr>arg_action := ScaleUp\<rparr>) w) = 0" if "kube_config_loads w"
    using that up by (simp add: main_def io_bind_def load_kubernetes_config_def exit_status_def)
  with up show ?thesis by blast
qed

text \<open>On the cluster at rest: one CronJob, resumed; nothing else is sent.\<close>

theorem scale_up_empty_store_witness:
  "scale_up idle_world =
     (Inr (), idle_world\<lparr>cronjobs := [\<lparr>namespace = ''default'', name = ''nightly'', suspend = False\<rparr>],
        calls := [GetParameter ASG_AWS_SSM_PARAMETER_NAME, GetParameter K8S_AWS_SSM_PARAMETER_NAME,
                  ListCronJobs, PatchCronJob ''nightly'' ''default'' False]\<rparr>) \<and>
   exit_status (main \<lparr>arg_action = ScaleUp, arg_k8s_resources = None,
                      arg_exclude_k8s_resources = None, arg_aws_asg_resources = None,
                      arg_exclude_aws_asg_resources = None\<rparr> idle_world) = 0"
proof -
  have a: "map_of (ssm idle_world) ASG_AWS_SSM_PARAMETER_NAME = None"
    and b: "map_of (ssm idle_world) K8S_AWS_SSM_PARAMETER_NAME = None"
    and c: "kube_config_loads idle_world"
    by (simp_all add: idle_world_def)
  show ?thesis
    using c scale_up_empty_store [OF a b, of "\<lparr>arg_action = ScaleUp, arg_k8s_resources = None,
                      arg_exclude_k8s_resources = None, arg_aws_asg_resources = None,
                      arg_exclude_aws_asg_resources = None\<rparr>"]
    by (simp add: idle_world_def cron_patches_def)
qed

subsection \<open>The restore phases leave the CronJobs alone\<close>

lemma scale_up_aws_keeps_cronjobs: "obeys (keeps cronjobs) scale_up_aws"
  by (rule obeys_scale_up_aws)
     (simp_all add: preorder_keeps, simp_all add: obeys_def keeps_def client_defs split: client_splits)

lemma scale_up_k8s_keeps_cronjobs: "obeys (keeps cronjobs) scale_up_k8s"
  by (rule obeys_scale_up_k8s)
     (simp_all add: preorder_keeps, simp_all add: obeys_def keeps_def client_defs split: client_splits)

lemma scale_up_aws_keeps_cron_requests:
  "obeys (keeps (\<lambda>w. filter is_cron_request (calls w))) scale_up_aws"
  by (rule obeys_scale_up_aws)
     (simp_all add: preorder_keeps, simp_all add: obeys_def keeps_def client_defs split: client_splits)

lemma scale_up_k8s_keeps_cron_requests:
  "obeys (keeps (\<lambda>w. filter is_cron_request (calls w))) scale_up_k8s"
  by (rule obeys_scale_up_k8s)
     (simp_all add: preorder_keeps, simp_all add: obeys_def keeps_def client_defs split: client_splits)

lemma scale_up_aws_keeps_ssm: "obeys (keeps ssm) scale_up_aws"
  by (rule obeys_scale_up_aws)
     (simp_all add: preorder_keeps, simp_all add: obeys_def keeps_def client_defs split: client_splits)

lemma scale_up_aws_log_grows: "obeys log_grows scale_up_aws"
  by (rule obeys_scale_up_aws)
     (simp_all add: preorder_log_grows, simp_all add: obeys_def log_grows_def client_defs split: client_splits)

lemma scale_up_k8s_log_grows: "obeys log_grows scale_up_k8s"
  by (rule obeys_scale_up_k8s)
     (simp_all add: preorder_log_grows, simp_all add: obeys_def log_grows_def client_defs split: client_splits)

subsection \<open>Scale-up resumes every CronJob\<close>

text \<open>
  Claim C6. The resume pass lists the CronJobs of the platform and, for each of them,
  whatever its flag was, sets suspend to false and sends a patch; the pass itself never
  fails. In a scale-up that completes, the CronJobs after the run are the CronJobs before
  it with suspend false, and the log of the run ends with the listing and one patch for
  every CronJob of the platform. No stored record is consulted for this.
\<close>

theorem scale_up_resumes_every_cronjob:
  "resume_cronjobs w0 =
     (Inr (), w0\<lparr>cronjobs := map (\<lambda>obj. obj\<lparr>suspend := False\<rparr>) (cronjobs w0),
                calls := calls w0 @ ListCronJobs # cron_patches False (cronjobs w0)\<rparr>) \<and>
   (scale_up w = (Inr (), w') \<longrightarrow>
      cronjobs w' = map (\<lambda>obj. obj\<lparr>suspend := False\<rparr>) (cronjobs w) \<and>
      (\<exists>pre. calls w' = calls w @ pre @ ListCronJobs # cron_patches False (cronjobs w)))"
proof (intro conjI impI)
  show "resume_cronjobs w0 =
     (Inr (), w0\<lparr>cronjobs := map (\<lambda>obj. obj\<lparr>suspend := False\<rparr>) (cronjobs w0),
                calls := calls w0 @ ListCronJobs # cron_patches False (cronjobs w0)\<rparr>)"
    by (rule resume_cronjobs_exact)
next
  assume run: "scale_up w = (Inr (), w')"
  then obtain w1 w2 where 1: "scale_up_aws w = (Inr (), w1)"
    and 2: "scale_up_k8s w1 = (Inr (), w2)" and 3: "resume_cronjobs w2 = (Inr (), w')"
    by (auto simp: scale_up_def io_bind_Inr)
  have c1: "cronjobs w1 = cronjobs w"
    using obeysD2 [OF scale_up_aws_keeps_cronjobs 1] by (simp add: keeps_def)
  have c2: "cronjobs w2 = cronjobs w1"
    using obeysD2 [OF scale_up_k8s_keeps_cronjobs 2] by (simp add: keeps_def)
  obtain p1 where l1: "calls w1 = calls w @ p1"
    using obeysD2 [OF scale_up_aws_log_grows 1] by (auto simp: log_grows_def)
  obtain p2 where l2: "calls w2 = calls w1 @ p2"
    using obeysD2 [OF scale_up_k8s_log_grows 2] by (auto simp: log_grows_def)
  have w': "w' = w2\<lparr>cronjobs := map (\<lambda>obj. obj\<lparr>suspend := False\<rparr>) (cronjobs w2),
                     calls := calls w2 @ ListCronJobs # cron_patches False (cronjobs w2)\<rparr>"
    using 3 by (simp add: resume_cronjobs_exact)
  show "cronjobs w' = map (\<lambda>obj. obj\<lparr>suspend := False\<rparr>) (cronjobs w)"
    using w' c1 c2 by simp
  have "calls w' = calls w @ (p1 @ p2) @ ListCronJobs # cron_patches False (cronjobs w)"
    using w' c1 c2 l1 l2 by simp
  then show "\<exists>pre. calls w' = calls w @ pre @ ListCronJobs # cron_patches False (cronjobs w)"
    by blast
qed

text \<open>The CronJob of the cluster at rest was suspended by hand, not by a scale-down.\<close>

theorem scale_up_resumes_every_cronjob_witness:
  "resume_cronjobs idle_world =
     (Inr (), idle_world\<lparr>cronjobs := [\<lparr>namespace = ''default'', name = ''nightly'', suspend = False\<rparr>],
                calls := [ListCronJobs, PatchCronJob ''nightly'' ''default'' False]\<rparr>) \<and>
   cronjobs (snd (scale_up idle_world)) =
     [\<lparr>namespace = ''default'', name = ''nightly'', suspend = False\<rparr>] \<and>
   (\<exists>pre. calls (snd (scale_up idle_world)) =
      pre @ [ListCronJobs, PatchCronJob ''nightly'' ''default'' False])"
proof -
  have a: "map_of (ssm idle_world) ASG_AWS_SSM_PARAMETER_NAME = None"
    and b: "map_of (ssm idle_world) K8S_AWS_SSM_PARAMETER_NAME = None"
    by (simp_all add: idle_world_def)
  obtain w' where run: "scale_up idle_world = (Inr (), w')"
    using scale_up_absent [OF a b] by blast
  show ?thesis
    using scale_up_resumes_every_cronjob [of idle_world idle_world w'] run
    by (simp add: idle_world_def cron_patches_def)
qed

subsection \<open>The restore loop on workload keys\<close>

lemma restore_k8s_append:
  "restore_k8s (xs @ ys) w = io_bind (restore_k8s xs) (\<lambda>_. restore_k8s ys) w"
proof (induction xs arbitrary: w)
  case Nil
  then show ?case by (simp add: io_bind_def)
next
  case (Cons p xs)
  obtain key r where p: "p = (key, r)" by (cases p)
  show ?case
  proof (cases "\<exists>kd ns nm. split CHR ''/'' key = [kd, ns, nm]")
    case True
    then obtain kd ns nm where k: "split CHR ''/'' key = [kd, ns, nm]" by blast
    obtain x w1 where s: "restore_workload kd ns nm r w = (x, w1)"
      by (cases "restore_workload kd ns nm r w")
    show ?thesis using p k s Cons.IH [of w1] by (cases x) (simp_all add: io_bind_def)
  next
    case False
    then show ?thesis using p by (simp add: io_bind_def split: list.splits)
  qed
qed

lemma restore_workload_not_ParameterNotFound:
  "fst (restore_workload kd ns nm r w) \<noteq> Inl ParameterNotFound"
  by (auto simp: restore_workload_def io_bind_def io_return_def client_defs
      split: client_splits prod.splits sum.splits)

lemma restore_k8s_not_ParameterNotFound:
  "fst (restore_k8s d w) \<noteq> Inl ParameterNotFound"
proof (induction d arbitrary: w)
  case Nil
  then show ?case by simp
next
  case (Cons p d)
  obtain key r where p: "p = (key, r)" by (cases p)
  show ?case
  proof (cases "\<exists>kd ns nm. split CHR ''/'' key = [kd, ns, nm]")
    case True
    then obtain kd ns nm where k: "split CHR ''/'' key = [kd, ns, nm]" by blast
    obtain x w1 where s: "restore_workload kd ns nm r w = (x, w1)"
      by (cases "restore_workload kd ns nm r w")
    show ?thesis
      using p k s Cons.IH [of w1] restore_workload_not_ParameterNotFound [of kd ns nm r w]
      by (cases x) simp_all
  next
    case False
    then show ?thesis using p by (simp split: list.splits)
  qed
qed

lemma scale_up_k8s_present:
  assumes "map_of (ssm w) K8S_AWS_SSM_PARAMETER_NAME = Some (JObj d)"
  shows "scale_up_k8s w = restore_k8s d (log (GetParameter K8S_AWS_SSM_PARAMETER_NAME) w)"
proof -
  let ?w1 = "log (GetParameter K8S_AWS_SSM_PARAMETER_NAME) w"
  obtain x w2 where r: "restore_k8s d ?w1 = (x, w2)" by (cases "restore_k8s d ?w1")
  have "x \<noteq> Inl ParameterNotFound" using restore_k8s_not_ParameterNotFound [of d ?w1] r by simp
  then show ?thesis
    using r assms
    by (simp add: scale_up_k8s_def except_ParameterNotFound_def io_bind_def items_def
          get_parameter_present split: sum.splits error.splits)
qed

subsection \<open>Keys of another kind\<close>

text \<open>
  Claim C10. A stored key with three parts whose first part is neither "deployment" nor
  "statefulset" is passed over in silence: restoring it sends no request and raises
  nothing, and the loop, and so the restore phase of scale-up, does exactly what it
  does on the blob without that key.
\<close>

theorem other_kind_is_skipped:
  assumes "split CHR ''/'' key = [kd, ns, nm]"
    and "kd \<noteq> ''deployment''" and "kd \<noteq> ''statefulset''"
  shows "restore_workload kd ns nm r w = (Inr (), w) \<and>
         restore_k8s (pre @ (key, r) # post) w = restore_k8s (pre @ post) w \<and>
         (map_of (ssm w) K8S_AWS_SSM_PARAMETER_NAME = Some (JObj (pre @ (key, r) # post)) \<longrightarrow>
            scale_up_k8s w =
              restore_k8s (pre @ post) (log (GetParameter K8S_AWS_SSM_PARAMETER_NAME) w))"
proof -
  have skip: "restore_workload kd ns nm r v = (Inr (), v)" for v
    using assms(2,3) by (simp add: restore_workload_def io_return_def)
  have step: "restore_k8s ((key, r) # post) v = restore_k8s post v" for v
    using assms(1) skip by simp
  have loop: "restore_k8s (pre @ (key, r) # post) v = restore_k8s (pre @ post) v" for v
    by (simp only: restore_k8s_append [of pre] io_bind_def step)
  show ?thesis using skip loop by (simp add: scale_up_k8s_present)
qed

lemma split_Deployment_key:
  "split CHR ''/'' ''Deployment/default/api'' = [''Deployment'', ''default'', ''api'']"
  by simp

text \<open>The key "Deployment/default/api" is passed over; the next key is restored.\<close>

theorem other_kind_is_skipped_witness:
  "restore_workload ''Deployment'' ''default'' ''api'' (JInt 2) capital_kind_world =
     (Inr (), capital_kind_world) \<and>
   scale_up_k8s capital_kind_world =
     (Inr (), capital_kind_world
        \<lparr>deployments := [\<lparr>namespace = ''default'', name = ''web'', replicas = 5\<rparr>],
         calls := [GetParameter K8S_AWS_SSM_PARAMETER_NAME,
                   ReadWorkload Deployment ''web'' ''default'',
                   PatchWorkload Deployment ''web'' ''default'' (JInt 5)]\<rparr>)"
proof -
  have s: "map_of (ssm capital_kind_world) K8S_AWS_SSM_PARAMETER_NAME =
      Some (JObj ([] @ (''Deployment/default/api'', JInt 2) # [(''deployment/default/web'', JInt 5)]))"
    by (simp add: capital_kind_world_def)
  have r: "restore_k8s [(''deployment/default/web'', JInt 5)]
             (log (GetParameter K8S_AWS_SSM_PARAMETER_NAME) capital_kind_world) =
           (Inr (), capital_kind_world
        \<lparr>deployments := [\<lparr>namespace = ''default'', name = ''web'', replicas = 5\<rparr>],
         calls := [GetParameter K8S_AWS_SSM_PARAMETER_NAME,
                   ReadWorkload Deployment ''web'' ''default'',
                   PatchWorkload Deployment ''web'' ''default'' (JInt 5)]\<rparr>)"
    by (simp add: capital_kind_world_def restore_workload_def io_bind_def client_defs is_named_def)
  show ?thesis
    using other_kind_is_skipped [OF split_Deployment_key, of "JInt 2" capital_kind_world "[]"
        "[(''deployment/default/web'', JInt 5)]"] s r
    by simp
qed

subsection \<open>A key that does not have three parts\<close>

lemma restore_k8s_malformed_step:
  assumes "length (split CHR ''/'' key) \<noteq> 3"
  shows "restore_k8s ((key, r) # post) w = (Inl ValueError, w)"
proof -
  have "\<not> (\<exists>kd ns nm. split CHR ''/'' key = [kd, ns, nm])" using assms by auto
  then show ?thesis by (simp split: list.splits)
qed

lemma restore_k8s_malformed:
  assumes "length (split CHR ''/'' key) \<noteq> 3"
  shows "restore_k8s (pre @ (key, r) # post) w =
           io_bind (restore_k8s pre) (\<lambda>_. lift (Inl ValueError)) w"
  by (simp only: restore_k8s_append [of pre] io_bind_def restore_k8s_malformed_step [OF assms]
        lift_def)

lemma io_bind_raise: "\<exists>e. fst (io_bind m (\<lambda>_. lift (Inl e0)) w) = Inl e"
  by (cases "m w") (auto simp: io_bind_def lift_def split: sum.splits)

text \<open>
  Claim C4, as the code has it. A stored key that does not split into exactly three
  parts is not skipped: the unpacking raises \<open>ValueError\<close>, which nothing catches.
  The keys before it have been restored; the loop stops there, so the keys after it are
  not processed; scale-up ends with an exception, and the CronJob pass does not run.
\<close>

theorem malformed_key_aborts:
  assumes "length (split CHR ''/'' key) \<noteq> 3"
  shows "restore_k8s (pre @ (key, r) # post) w0 =
           io_bind (restore_k8s pre) (\<lambda>_. lift (Inl ValueError)) w0 \<and>
         (map_of (ssm w) K8S_AWS_SSM_PARAMETER_NAME = Some (JObj (pre @ (key, r) # post)) \<longrightarrow>
            (\<exists>e. fst (scale_up w) = Inl e) \<and>
            cronjobs (snd (scale_up w)) = cronjobs w \<and>
            filter is_cron_request (calls (snd (scale_up w))) = filter is_cron_request (calls w))"
proof (intro conjI impI)
  show "restore_k8s (pre @ (key, r) # post) w0 =
           io_bind (restore_k8s pre) (\<lambda>_. lift (Inl ValueError)) w0"
    using assms by (rule restore_k8s_malformed)
next
  assume blob: "map_of (ssm w) K8S_AWS_SSM_PARAMETER_NAME = Some (JObj (pre @ (key, r) # post))"
  obtain x w1 where 1: "scale_up_aws w = (x, w1)" by (cases "scale_up_aws w")
  have s1: "ssm w1 = ssm w" using obeysD2 [OF scale_up_aws_keeps_ssm 1] by (simp add: keeps_def)
  have c1: "cronjobs w1 = cronjobs w"
    using obeysD2 [OF scale_up_aws_keeps_cronjobs 1] by (simp add: keeps_def)
  have q1: "filter is_cron_request (calls w1) = filter is_cron_request (calls w)"
    using obeysD2 [OF scale_up_aws_keeps_cron_requests 1] by (simp add: keeps_def)
  obtain y w2 where 2: "scale_up_k8s w1 = (y, w2)" by (cases "scale_up_k8s w1")
  have c2: "cronjobs w2 = cronjobs w1"
    using obeysD2 [OF scale_up_k8s_keeps_cronjobs 2] by (simp add: keeps_def)
  have q2: "filter is_cron_request (calls w2) = filter is_cron_request (calls w1)"
    using obeysD2 [OF scale_up_k8s_keeps_cron_requests 2] by (simp add: keeps_def)
  have "scale_up_k8s w1 =
          io_bind (restore_k8s pre) (\<lambda>_. lift (Inl ValueError))
            (log (GetParameter K8S_AWS_SSM_PARAMETER_NAME) w1)"
    using blob s1 by (simp add: scale_up_k8s_present restore_k8s_malformed [OF assms])
  then have "\<exists>e. fst (scale_up_k8s w1) = Inl e"
    using io_bind_raise [of "restore_k8s pre" ValueError
        "log (GetParameter K8S_AWS_SSM_PARAMETER_NAME) w1"] by simp
  then obtain e where y: "y = Inl e" using 2 by auto
  have run: "scale_up w = (case x of Inl e' \<Rightarrow> (Inl e', w1) | Inr _ \<Rightarrow> (Inl e, w2))"
    using 1 2 y by (simp add: scale_up_def io_bind_def split: sum.splits)
  show "\<exists>e. fst (scale_up w) = Inl e" using run by (cases x) simp_all
  show "cronjobs (snd (scale_up w)) = cronjobs w" using run c1 c2 by (cases x) simp_all
  show "filter is_cron_request (calls (snd (scale_up w))) = filter is_cron_request (calls w)"
    using run q1 q2 by (cases x) simp_all
qed

lemma split_web: "split CHR ''/'' ''web'' = [''web'']"
  by simp

text \<open>
  With the key "web" before the key of a Deployment at zero, scale-up raises
  \<open>ValueError\<close> after its two reads of the store: the Deployment is not restored, the
  suspended CronJob is not resumed.
\<close>

theorem malformed_key_counterexample:
  "scale_up malformed_key_world =
     (Inl ValueError,
      malformed_key_world\<lparr>calls := [GetParameter ASG_AWS_SSM_PARAMETER_NAME,
                                    GetParameter K8S_AWS_SSM_PARAMETER_NAME]\<rparr>)"
proof -
  let ?w1 = "log (GetParameter ASG_AWS_SSM_PARAMETER_NAME) malformed_key_world"
  have "map_of (ssm malformed_key_world) ASG_AWS_SSM_PARAMETER_NAME = None"
    by (simp add: malformed_key_world_def ASG_AWS_SSM_PARAMETER_NAME_def
          K8S_AWS_SSM_PARAMETER_NAME_def)
  then have 1: "scale_up_aws malformed_key_world = (Inr (), ?w1)" by (rule scale_up_aws_absent)
  have "map_of (ssm ?w1) K8S_AWS_SSM_PARAMETER_NAME =
          Some (JObj [(''web'', JInt 5), (''deployment/default/web'', JInt 5)])"
    by (simp add: malformed_key_world_def log_def)
  then have "scale_up_k8s ?w1 = (Inl ValueError, log (GetParameter K8S_AWS_SSM_PARAMETER_NAME) ?w1)"
    by (simp add: scale_up_k8s_present)
  then show ?thesis using 1 by (simp add: scale_up_def io_bind_def log_def malformed_key_world_def)
qed

text \<open>The same store, through the theorem.\<close>

theorem malformed_key_aborts_witness:
  "(\<exists>e. fst (scale_up malformed_key_world) = Inl e) \<and>
   cronjobs (snd (scale_up malformed_key_world)) =
     [\<lparr>namespace = ''default'', name = ''nightly'', suspend = True\<rparr>] \<and>
   filter is_cron_request (calls (snd (scale_up malformed_key_world))) = []"
proof -
  have len: "length (split CHR ''/'' ''web'') \<noteq> 3" by simp
  have blob: "map_of (ssm malformed_key_world) K8S_AWS_SSM_PARAMETER_NAME =
      Some (JObj ([] @ (''web'', JInt 5) # [(''deployment/default/web'', JInt 5)]))"
    by (simp add: malformed_key_world_def)
  show ?thesis
    using malformed_key_aborts [OF len, of "[]" "JInt 5" "[(''deployment/default/web'', JInt 5)]"
        malformed_key_world malformed_key_world] blob
    by (simp add: malformed_key_world_def)
qed

subsection \<open>Exclusion filters\<close>

text \<open>
  Claim C7. The filter on platform objects returns, in the order of the input, exactly
  the objects that no exclusion entry names, where an entry names an object of the kind
  the filter is called for when the namespaces are equal, the names are equal and the
  kinds are equal after lowering their letters; the filter on fleet groups returns, in
  order, the names that are not in the exclusion list; with no exclusion list, or an
  empty one, both return their input.
\<close>

theorem exclusion_filters:
  "filter_excluded_k8s_resources kd resources exclude_list =
     filter (\<lambda>obj. \<not> (\<exists>e \<in> set (entries exclude_list). excludes kd e obj)) resources \<and>
   filter_excluded_asgs asg_list exclude_names =
     filter (\<lambda>n. n \<notin> set (entries exclude_names)) asg_list \<and>
   filter_excluded_k8s_resources kd resources None = resources \<and>
   filter_excluded_k8s_resources kd resources (Some []) = resources \<and>
   filter_excluded_asgs asg_list None = asg_list \<and>
   filter_excluded_asgs asg_list (Some []) = asg_list"
proof -
  have in_set: "((namespace obj, lower kd, name obj) \<in>
          (\<lambda>res. (ref_namespace res, lower (ref_kind res), ref_name res)) ` set l) =
        (\<exists>e \<in> set l. excludes kd e obj)" for obj :: "'a k8s_object_scheme" and l
    by (force simp: excludes_def image_iff)
  have "filter_excluded_k8s_resources kd resources exclude_list =
     filter (\<lambda>obj. \<not> (\<exists>e \<in> set (entries exclude_list). excludes kd e obj)) resources"
  proof (cases exclude_list)
    case None
    then show ?thesis by (simp add: filter_excluded_k8s_resources_def py_not_def entries_def)
  next
    case (Some l)
    then show ?thesis
      by (cases "l = []")
         (simp_all add: filter_excluded_k8s_resources_def py_not_def entries_def in_set)
  qed
  moreover have "filter_excluded_asgs asg_list exclude_names =
     filter (\<lambda>n. n \<notin> set (entries exclude_names)) asg_list"
  proof (cases exclude_names)
    case None
    then show ?thesis by (simp add: filter_excluded_asgs_def py_not_def entries_def)
  next
    case (Some l)
    then show ?thesis
      by (cases "l = []") (simp_all add: filter_excluded_asgs_def py_not_def entries_def)
  qed
  ultimately show ?thesis
    by (simp add: filter_excluded_k8s_resources_def filter_excluded_asgs_def py_not_def)
qed

lemma lower_deployment: "lower ''DEPLOYMENT'' = lower ''Deployment''"
  by code_simp

text \<open>Of a, b and c, excluding b with its kind in capitals leaves a and c, in order.\<close>

theorem exclusion_filters_witness:
  "filter_excluded_k8s_resources ''Deployment'' three_workloads
     (Some [\<lparr>ref_namespace = ''default'', ref_kind = ''DEPLOYMENT'', ref_name = ''b''\<rparr>]) =
     [\<lparr>namespace = ''default'', name = ''a'', replicas = 1\<rparr>,
      \<lparr>namespace = ''default'', name = ''c'', replicas = 3\<rparr>] \<and>
   filter_excluded_asgs [''g1'', ''g2'', ''g3''] (Some [''g2'']) = [''g1'', ''g3'']"
  using exclusion_filters [of "''Deployment''" three_workloads
      "Some [\<lparr>ref_namespace = ''default'', ref_kind = ''DEPLOYMENT'', ref_name = ''b''\<rparr>]"
      "[''g1'', ''g2'', ''g3'']" "Some [''g2'']"]
  by (simp add: three_workloads_def entries_def excludes_def lower_deployment)

subsection \<open>Merge into the store\<close>

lemma map_of_dict_set: "map_of (dict_set d k v) = (map_of d)(k \<mapsto> v)"
  by (induction d) (auto simp: fun_eq_iff)

lemma map_of_dict_update:
  "distinct (map fst new) \<Longrightarrow> map_of (dict_update d new) = map_of d ++ map_of new"
proof (induction new arbitrary: d)
  case Nil
  then show ?case by simp
next
  case (Cons p new)
  obtain k v where p: "p = (k, v)" by (cases p)
  have k: "map_of new k = None" using Cons.prems p by (simp add: map_of_eq_None_iff)
  have "map_of (dict_update d (p # new)) = (map_of d)(k \<mapsto> v) ++ map_of new"
    using Cons p by (simp add: map_of_dict_set)
  also have "\<dots> = map_of d ++ map_of (p # new)"
    using k p by (auto simp: fun_eq_iff map_add_def split: option.splits)
  finally show ?case .
qed

lemma update_ssm_parameter_exact:
  assumes "existing_data n w = Some d"
  shows "update_ssm_parameter n new_data w =
           (Inr (), put_parameter n (JObj (dict_update d new_data)) (log (GetParameter n) w))"
  using assms
  by (auto simp: update_ssm_parameter_def existing_data_def get_parameter_def
      split: option.splits json.splits)

text \<open>
  Claim C1. When the parameter is absent or holds an object \<open>E\<close>, the merge of an
  accumulator \<open>N\<close> completes and stores one object under the parameter's name: as a map
  it is \<open>E\<close> overridden by \<open>N\<close>, so a key of \<open>N\<close> has the value of \<open>N\<close>, a key of \<open>E\<close>
  that \<open>N\<close> lacks keeps the value of \<open>E\<close>, and there is no other key. The object is
  sent in one \<open>put_parameter\<close> request, the last of the run, and the other parameters of
  the store keep their values.
\<close>

theorem update_ssm_parameter_merges:
  assumes "existing_data n w = Some E" and "distinct (map fst N)"
  shows "\<exists>M w'. update_ssm_parameter n N w = (Inr (), w') \<and>
           map_of (ssm w') n = Some (JObj M) \<and>
           map_of M = map_of E ++ map_of N \<and>
           calls w' = calls w @ [GetParameter n, PutParameter n (JObj M)] \<and>
           (\<forall>n'. n' \<noteq> n \<longrightarrow> map_of (ssm w') n' = map_of (ssm w) n')"
proof -
  let ?M = "dict_update E N"
  let ?w' = "put_parameter n (JObj ?M) (log (GetParameter n) w)"
  have "update_ssm_parameter n N w = (Inr (), ?w')"
    using assms(1) by (rule update_ssm_parameter_exact)
  moreover have "map_of (ssm ?w') n = Some (JObj ?M)"
    by (simp add: put_parameter_def log_def map_of_dict_set)
  moreover have "map_of ?M = map_of E ++ map_of N"
    using assms(2) by (rule map_of_dict_update)
  moreover have "calls ?w' = calls w @ [GetParameter n, PutParameter n (JObj ?M)]"
    by (simp add: put_parameter_def log_def)
  moreover have "\<forall>n'. n' \<noteq> n \<longrightarrow> map_of (ssm ?w') n' = map_of (ssm w) n'"
    by (simp add: put_parameter_def log_def map_of_dict_set)
  ultimately show ?thesis by blast
qed

text \<open>A stored record of a, a captured record of b: the store holds both.\<close>

theorem update_ssm_parameter_merges_witness:
  "\<exists>M w'. update_ssm_parameter K8S_AWS_SSM_PARAMETER_NAME [(''deployment/ns/b'', JInt 2)] merge_world
             = (Inr (), w') \<and>
          map_of (ssm w') K8S_AWS_SSM_PARAMETER_NAME = Some (JObj M) \<and>
          map_of M = [''deployment/ns/a'' \<mapsto> JInt 3, ''deployment/ns/b'' \<mapsto> JInt 2]"
proof -
  have e: "existing_data K8S_AWS_SSM_PARAMETER_NAME merge_world = Some [(''deployment/ns/a'', JInt 3)]"
    by (simp add: existing_data_def merge_world_def)
  have d: "distinct (map fst [(''deployment/ns/b'', JInt 2)])" by simp
  have m: "map_of [(''deployment/ns/a'', JInt 3)] ++ map_of [(''deployment/ns/b'', JInt 2)] =
        [''deployment/ns/a'' \<mapsto> JInt 3, ''deployment/ns/b'' \<mapsto> JInt 2]"
    by (auto simp: fun_eq_iff map_add_def)
  show ?thesis
    using update_ssm_parameter_merges [OF e d] m by metis
qed

subsection \<open>The loop on fleet groups\<close>

lemma filter_find_Nil: "filter P xs = [] \<longleftrightarrow> find P xs = None"
  by (induction xs) auto

lemma filter_find_Cons: "filter P xs = g # rest \<Longrightarrow> find P xs = Some g"
  by (induction xs) (auto split: if_splits)

lemma find_Some_filter: "find P xs = Some g \<Longrightarrow> \<exists>rest. filter P xs = g # rest"
  by (induction xs) (auto split: if_splits)

lemma scale_down_asgs_absent:
  assumes "described n w = None"
  shows "scale_down_asgs (n # names) acc w = (Inl IndexError, log (DescribeASG n) w)"
  using assms
  by (simp add: described_def describe_auto_scaling_groups_def filter_find_Nil [symmetric])

lemma scale_down_asgs_idle:
  assumes "described n w = Some g" and "\<not> not_scaled_down g"
  shows "scale_down_asgs (n # names) acc w = scale_down_asgs names acc (log (DescribeASG n) w)"
proof -
  obtain rest where "filter (\<lambda>g. AutoScalingGroupName g = n) (asgs w) = g # rest"
    using assms(1) find_Some_filter unfolding described_def by fastforce
  then show ?thesis
    using assms(2) by (simp add: describe_auto_scaling_groups_def not_scaled_down_def)
qed

lemma scale_down_asgs_act:
  assumes "described n w = Some g" and "not_scaled_down g"
  shows "scale_down_asgs (n # names) acc w =
           scale_down_asgs names (dict_set acc n (capacity_json g)) (after_update n w)"
proof -
  obtain rest where f: "filter (\<lambda>g. AutoScalingGroupName g = n) (asgs w) = g # rest"
    using assms(1) find_Some_filter unfolding described_def by fastforce
  then have "g \<in> set (filter (\<lambda>g. AutoScalingGroupName g = n) (asgs w))" by simp
  then have ex: "\<exists>g \<in> set (asgs w). AutoScalingGroupName g = n" by auto
  show ?thesis
    using f ex assms(2)
    unfolding after_update_def zeroed_def
    by (simp add: describe_auto_scaling_groups_def update_auto_scaling_group_def
          not_scaled_down_def log_def)
qed

lemma calls_log [simp]: "calls (log c w) = calls w @ [c]"
  by (simp add: log_def)

lemma described_log [simp]: "described n (log c w) = described n w"
  by (simp add: described_def log_def)

lemma find_map_asg:
  "find (\<lambda>g. AutoScalingGroupName g = n)
     (map (\<lambda>g. if AutoScalingGroupName g = m then zeroed g else g) xs) =
   map_option (\<lambda>g. if AutoScalingGroupName g = m then zeroed g else g)
     (find (\<lambda>g. AutoScalingGroupName g = n) xs)"
  by (induction xs) (auto simp: zeroed_def)

lemma described_after_update:
  "described n (after_update m w) =
     map_option (\<lambda>g. if AutoScalingGroupName g = m then zeroed g else g) (described n w)"
  by (simp add: described_def after_update_def log_def find_map_asg)

lemma described_name: "described n w = Some g \<Longrightarrow> AutoScalingGroupName g = n"
  by (auto simp: described_def find_Some_iff)

lemma described_after_update_other:
  assumes "m \<noteq> n"
  shows "described n (after_update m w) = described n w"
proof (cases "described n w")
  case None
  then show ?thesis by (simp add: described_after_update)
next
  case (Some g)
  then show ?thesis using assms described_name [OF Some] by (simp add: described_after_update)
qed

lemma calls_after_update: "calls (after_update n w) = calls w @ [DescribeASG n, UpdateASG n 0 0 0]"
  by (simp add: after_update_def log_def)

lemma not_scaled_down_zeroed [simp]: "\<not> not_scaled_down (zeroed g)"
  by (simp add: not_scaled_down_def zeroed_def)

lemma map_of_dict_set_other: "k' \<noteq> k \<Longrightarrow> map_of (dict_set d k v) k' = map_of d k'"
  by (simp add: map_of_dict_set)

text \<open>A name the loop does not meet, or meets scaled down: nothing about it changes.\<close>

lemma scale_down_asgs_untouched:
  assumes "scale_down_asgs names acc w = (Inr acc', w')"
    and "n \<notin> set names \<or> (\<exists>g. described n w = Some g \<and> \<not> not_scaled_down g)"
  shows "map_of acc' n = map_of acc n \<and> described n w' = described n w \<and>
         filter (is_update_of n) (calls w') = filter (is_update_of n) (calls w)"
  using assms
proof (induction names arbitrary: acc w)
  case Nil
  then show ?case by simp
next
  case (Cons m names)
  show ?case
  proof (cases "described m w")
    case None
    then show ?thesis
      using Cons.prems(1) by (simp add: scale_down_asgs_absent del: scale_down_asgs.simps)
  next
    case (Some gm)
    show ?thesis
    proof (cases "not_scaled_down gm")
      case False
      let ?w1 = "log (DescribeASG m) w"
      have run: "scale_down_asgs names acc ?w1 = (Inr acc', w')"
        using Cons.prems(1) scale_down_asgs_idle [OF Some False] by simp
      have cond: "n \<notin> set names \<or> (\<exists>g. described n ?w1 = Some g \<and> \<not> not_scaled_down g)"
        using Cons.prems(2) by auto
      show ?thesis using Cons.IH [OF run cond] by simp
    next
      case True
      then have mn: "m \<noteq> n" using Cons.prems(2) Some by auto
      let ?w1 = "after_update m w"
      let ?acc1 = "dict_set acc m (capacity_json gm)"
      have run: "scale_down_asgs names ?acc1 ?w1 = (Inr acc', w')"
        using Cons.prems(1) scale_down_asgs_act [OF Some True] by simp
      have d: "described n ?w1 = described n w"
        using mn by (rule described_after_update_other)
      have cond: "n \<notin> set names \<or> (\<exists>g. described n ?w1 = Some g \<and> \<not> not_scaled_down g)"
        using Cons.prems(2) mn d by auto
      show ?thesis
        using Cons.IH [OF run cond] mn d
        by (simp add: map_of_dict_set_other calls_after_update)
    qed
  qed
qed

lemma preorder_same_but_log: "preorder_on_worlds same_but_log"
  unfolding preorder_on_worlds_def same_but_log_def
proof (intro conjI allI impI)
  fix w :: world
  have "w = w\<lparr>calls := calls w @ []\<rparr>" by simp
  then show "\<exists>cs. w = w\<lparr>calls := calls w @ cs\<rparr>" by blast
next
  fix a b c :: world
  assume "\<exists>cs. b = a\<lparr>calls := calls a @ cs\<rparr>" and "\<exists>cs. c = b\<lparr>calls := calls b @ cs\<rparr>"
  then obtain cs ds where "b = a\<lparr>calls := calls a @ cs\<rparr>" and "c = b\<lparr>calls := calls b @ ds\<rparr>"
    by blast
  then have "c = a\<lparr>calls := calls a @ (cs @ ds)\<rparr>" by simp
  then show "\<exists>cs. c = a\<lparr>calls := calls a @ cs\<rparr>" by blast
qed

lemma same_but_log_log: "same_but_log w (log c w)"
  unfolding same_but_log_def log_def by blast

lemma scale_down_asgs_log_grows: "obeys log_grows (scale_down_asgs names acc)"
  by (rule obeys_scale_down_asgs)
     (simp_all add: preorder_log_grows, simp_all add: obeys_def log_grows_def client_defs)

text \<open>A name the loop meets not scaled down: recorded once, updated to zero.\<close>

lemma scale_down_asgs_touched:
  assumes "scale_down_asgs names acc w = (Inr acc', w')"
    and "n \<in> set names" and "described n w = Some g" and "not_scaled_down g"
  shows "map_of acc' n = Some (capacity_json g) \<and> described n w' = Some (zeroed g) \<and>
         (\<exists>cs. calls w' = calls w @ cs \<and> UpdateASG n 0 0 0 \<in> set cs)"
  using assms
proof (induction names arbitrary: acc w)
  case Nil
  then show ?case by simp
next
  case (Cons m names)
  show ?case
  proof (cases "m = n")
    case True
    let ?w1 = "after_update n w"
    let ?acc1 = "dict_set acc n (capacity_json g)"
    have run: "scale_down_asgs names ?acc1 ?w1 = (Inr acc', w')"
      using Cons.prems(1) True scale_down_asgs_act [OF Cons.prems(3,4)] by simp
    have d1: "described n ?w1 = Some (zeroed g)"
      using Cons.prems(3) described_name [OF Cons.prems(3)] by (simp add: described_after_update)
    then have "n \<notin> set names \<or> (\<exists>g. described n ?w1 = Some g \<and> \<not> not_scaled_down g)"
      by simp
    from scale_down_asgs_untouched [OF run this]
    have rest: "map_of acc' n = map_of ?acc1 n" "described n w' = described n ?w1" by simp_all
    obtain cs where "calls w' = calls ?w1 @ cs"
      using obeysD2 [OF scale_down_asgs_log_grows run] by (auto simp: log_grows_def)
    then have "calls w' = calls w @ ([DescribeASG n, UpdateASG n 0 0 0] @ cs)"
      by (simp add: calls_after_update)
    moreover have "UpdateASG n 0 0 0 \<in> set ([DescribeASG n, UpdateASG n 0 0 0] @ cs)" by simp
    ultimately have "\<exists>cs. calls w' = calls w @ cs \<and> UpdateASG n 0 0 0 \<in> set cs" by blast
    then show ?thesis using rest d1 by (simp add: map_of_dict_set)
  next
    case False
    then have mem: "n \<in> set names" using Cons.prems(2) by simp
    show ?thesis
    proof (cases "described m w")
      case None
      then show ?thesis
        using Cons.prems(1) by (simp add: scale_down_asgs_absent del: scale_down_asgs.simps)
    next
      case (Some gm)
      show ?thesis
      proof (cases "not_scaled_down gm")
        case idle: False
        let ?w1 = "log (DescribeASG m) w"
        have run: "scale_down_asgs names acc ?w1 = (Inr acc', w')"
          using Cons.prems(1) scale_down_asgs_idle [OF Some idle] by simp
        have d: "described n ?w1 = Some g" using Cons.prems(3) by simp
        from Cons.IH [OF run mem d Cons.prems(4)]
        obtain cs where r: "map_of acc' n = Some (capacity_json g)"
          "described n w' = Some (zeroed g)" "calls w' = calls ?w1 @ cs"
          "UpdateASG n 0 0 0 \<in> set cs" by blast
        have "calls w' = calls w @ (DescribeASG m # cs)" using r(3) by simp
        moreover have "UpdateASG n 0 0 0 \<in> set (DescribeASG m # cs)" using r(4) by simp
        ultimately have "\<exists>cs. calls w' = calls w @ cs \<and> UpdateASG n 0 0 0 \<in> set cs" by blast
        then show ?thesis using r(1,2) by simp
      next
        case act: True
        let ?w1 = "after_update m w"
        let ?acc1 = "dict_set acc m (capacity_json gm)"
        have run: "scale_down_asgs names ?acc1 ?w1 = (Inr acc', w')"
          using Cons.prems(1) scale_down_asgs_act [OF Some act] by simp
        have d: "described n ?w1 = Some g"
          using Cons.prems(3) False by (simp add: described_after_update_other)
        from Cons.IH [OF run mem d Cons.prems(4)]
        obtain cs where r: "map_of acc' n = Some (capacity_json g)"
          "described n w' = Some (zeroed g)" "calls w' = calls ?w1 @ cs"
          "UpdateASG n 0 0 0 \<in> set cs" by blast
        have "calls w' = calls w @ ([DescribeASG m, UpdateASG m 0 0 0] @ cs)"
          using r(3) by (simp add: calls_after_update)
        moreover have "UpdateASG n 0 0 0 \<in> set ([DescribeASG m, UpdateASG m 0 0 0] @ cs)"
          using r(4) by simp
        ultimately have "\<exists>cs. calls w' = calls w @ cs \<and> UpdateASG n 0 0 0 \<in> set cs" by blast
        then show ?thesis using r(1,2) by simp
      qed
    qed
  qed
qed

lemma keys_dict_set: "fst ` set (dict_set d k v) = insert k (fst ` set d)"
proof (induction d)
  case Nil
  then show ?case by simp
next
  case (Cons p d)
  obtain k' v' where p: "p = (k', v')" by (cases p)
  show ?case
  proof (cases "k' = k")
    case True
    then show ?thesis using p by auto
  next
    case False
    then show ?thesis using p Cons.IH by auto
  qed
qed

lemma distinct_dict_set:
  "distinct (map fst d) \<Longrightarrow> distinct (map fst (dict_set d k v))"
proof (induction d)
  case Nil
  then show ?case by simp
next
  case (Cons p d)
  obtain k' v' where p: "p = (k', v')" by (cases p)
  show ?case using Cons p keys_dict_set [of d k v] by auto
qed

lemma scale_down_asgs_distinct:
  assumes "scale_down_asgs names acc w = (Inr acc', w')" and "distinct (map fst acc)"
  shows "distinct (map fst acc')"
  using assms
proof (induction names arbitrary: acc w)
  case Nil
  then show ?case by simp
next
  case (Cons m names)
  show ?case
  proof (cases "described m w")
    case None
    then show ?thesis
      using Cons.prems(1) by (simp add: scale_down_asgs_absent del: scale_down_asgs.simps)
  next
    case (Some gm)
    show ?thesis
    proof (cases "not_scaled_down gm")
      case False
      then show ?thesis
        using Cons.prems Cons.IH scale_down_asgs_idle [OF Some False] by simp
    next
      case True
      have "scale_down_asgs names (dict_set acc m (capacity_json gm)) (after_update m w) = (Inr acc', w')"
        using Cons.prems(1) scale_down_asgs_act [OF Some True] by simp
      then show ?thesis
        using Cons.IH distinct_dict_set [OF Cons.prems(2)] by blast
    qed
  qed
qed

subsection \<open>Storing an accumulator\<close>

lemma update_ssm_parameter_Inr:
  assumes "update_ssm_parameter p new_data w = (Inr (), w')"
  shows "\<exists>E. existing_data p w = Some E \<and>
             w' = put_parameter p (JObj (dict_update E new_data)) (log (GetParameter p) w)"
  using assms
  by (auto simp: update_ssm_parameter_def existing_data_def get_parameter_def
      split: option.splits json.splits)

lemma stored_record_existing:
  "existing_data p w = Some E \<Longrightarrow> stored_record p k w = map_of E k"
  by (auto simp: existing_data_def stored_record_def split: option.splits json.splits)

lemma stored_record_put:
  "stored_record p k (put_parameter p (JObj d) w) = map_of d k"
  by (simp add: stored_record_def put_parameter_def log_def map_of_dict_set)

lemma store_if_any_record:
  assumes "store_if_any p acc w = (Inr (), w')" and "distinct (map fst acc)"
  shows "stored_record p k w' =
           (case map_of acc k of None \<Rightarrow> stored_record p k w | Some v \<Rightarrow> Some v)"
proof (cases "acc = []")
  case True
  then show ?thesis using assms(1) by (simp add: store_if_any_def io_return_def)
next
  case False
  then have "update_ssm_parameter p acc w = (Inr (), w')"
    using assms(1) by (simp add: store_if_any_def)
  then obtain E where E: "existing_data p w = Some E"
    and w': "w' = put_parameter p (JObj (dict_update E acc)) (log (GetParameter p) w)"
    using update_ssm_parameter_Inr by blast
  have "stored_record p k w' = (map_of E ++ map_of acc) k"
    using w' by (simp add: stored_record_put map_of_dict_update [OF assms(2)])
  then show ?thesis
    using stored_record_existing [OF E, of k] by (simp add: map_add_def split: option.splits)
qed

lemma store_if_any_keeps_asgs: "obeys (keeps asgs) (store_if_any p acc)"
  by (rule obeys_store_if_any)
     (simp_all add: preorder_keeps, simp_all add: obeys_def keeps_def client_defs split: client_splits)

lemma store_if_any_keeps_updates:
  "obeys (keeps (\<lambda>w. filter (is_update_of n) (calls w))) (store_if_any p acc)"
  by (rule obeys_store_if_any)
     (simp_all add: preorder_keeps, simp_all add: obeys_def keeps_def client_defs split: client_splits)

lemma store_if_any_log_grows: "obeys log_grows (store_if_any p acc)"
  by (rule obeys_store_if_any)
     (simp_all add: preorder_log_grows, simp_all add: obeys_def log_grows_def client_defs split: client_splits)

subsection \<open>The workload phase leaves the fleet alone\<close>

lemma names_differ: "K8S_AWS_SSM_PARAMETER_NAME \<noteq> ASG_AWS_SSM_PARAMETER_NAME"
  by (simp add: K8S_AWS_SSM_PARAMETER_NAME_def ASG_AWS_SSM_PARAMETER_NAME_def)

lemma scale_down_k8s_keeps_asgs: "obeys (keeps asgs) (scale_down_k8s r e)"
  by (rule obeys_scale_down_k8s)
     (simp_all add: preorder_keeps, simp_all add: obeys_def keeps_def client_defs split: client_splits)

lemma scale_down_k8s_keeps_asg_parameter:
  "obeys (keeps (\<lambda>w. map_of (ssm w) ASG_AWS_SSM_PARAMETER_NAME)) (scale_down_k8s r e)"
  using names_differ
  by (intro obeys_scale_down_k8s)
     (simp_all add: preorder_keeps, simp_all add: obeys_def keeps_def client_defs map_of_dict_set
        split: client_splits)

lemma scale_down_k8s_keeps_updates:
  "obeys (keeps (\<lambda>w. filter (is_update_of n) (calls w))) (scale_down_k8s r e)"
  by (rule obeys_scale_down_k8s)
     (simp_all add: preorder_keeps, simp_all add: obeys_def keeps_def client_defs split: client_splits)

lemma scale_down_k8s_log_grows: "obeys log_grows (scale_down_k8s r e)"
  by (rule obeys_scale_down_k8s)
     (simp_all add: preorder_log_grows, simp_all add: obeys_def log_grows_def client_defs split: client_splits)

subsection \<open>The fleet phase\<close>

lemma same_but_log_refl: "same_but_log w w"
  using preorder_same_but_log by (rule preorder_refl)

lemma fetch_asgs_exact:
  "\<exists>w0. fetch_asgs a w =
          (Inr (if py_not a then map AutoScalingGroupName (asgs w) else the a), w0) \<and>
        (w0 = w \<or> w0 = log DescribeAllASGs w)"
proof (cases "py_not a")
  case True
  then have "fetch_asgs a w = (Inr (map AutoScalingGroupName (asgs w)), log DescribeAllASGs w)"
    by (simp add: fetch_asgs_def io_bind_def io_return_def describe_all_auto_scaling_groups_def)
  then show ?thesis using True by auto
next
  case False
  then have "fetch_asgs a w = (Inr (the a), w)" by (simp add: fetch_asgs_def io_return_def)
  then show ?thesis using False by auto
qed

lemma scale_down_aws_Inr:
  assumes "scale_down_aws a e w = (Inr (), w')"
  shows "\<exists>w0 acc' wc. (w0 = w \<or> w0 = log DescribeAllASGs w) \<and>
           scale_down_asgs (selected_asgs a e w) [] w0 = (Inr acc', wc) \<and>
           store_if_any ASG_AWS_SSM_PARAMETER_NAME acc' wc = (Inr (), w')"
proof -
  obtain w0 where f: "fetch_asgs a w =
     (Inr (if py_not a then map AutoScalingGroupName (asgs w) else the a), w0)"
    and l: "w0 = w \<or> w0 = log DescribeAllASGs w"
    using fetch_asgs_exact by blast
  obtain acc' wc where
    "scale_down_asgs (selected_asgs a e w) [] w0 = (Inr acc', wc)"
    "store_if_any ASG_AWS_SSM_PARAMETER_NAME acc' wc = (Inr (), w')"
    using assms f unfolding scale_down_aws_def selected_asgs_def
    by (auto simp: io_bind_Inr)
  with l show ?thesis by blast
qed

lemma same_but_log_described: "same_but_log w w0 \<Longrightarrow> described n w0 = described n w"
  by (auto simp: same_but_log_def described_def)

lemma same_but_log_stored_record:
  "same_but_log w w0 \<Longrightarrow> stored_record p k w0 = stored_record p k w"
  by (auto simp: same_but_log_def stored_record_def)

lemma same_but_log_calls: "same_but_log w w0 \<Longrightarrow> \<exists>cs. calls w0 = calls w @ cs"
  by (auto simp: same_but_log_def)

lemma stored_record_log [simp]: "stored_record p k (log c w) = stored_record p k w"
  by (simp add: stored_record_def log_def)

lemma scale_down_asgs_keeps_ssm: "obeys (keeps ssm) (scale_down_asgs names acc)"
  by (rule obeys_scale_down_asgs)
     (simp_all add: preorder_keeps, simp_all add: obeys_def keeps_def client_defs)


lemma described_cong: "asgs w' = asgs w \<Longrightarrow> described n w' = described n w"
  by (simp add: described_def)

lemma selected_asgs_cong: "asgs w' = asgs w \<Longrightarrow> selected_asgs a e w' = selected_asgs a e w"
  by (simp add: selected_asgs_def)

subsection \<open>Scale-down of a fleet group\<close>

text \<open>
  Claim C8. In a scale-down that completes, take a fleet group the run works on. If the
  test of line 138 holds of the capacities the platform describes (MinSize above zero, or
  DesiredCapacity or MaxSize not zero), then after the run the fleet entry of the store
  holds exactly these three capacities under the group's name, the group is at zero for
  all three, and the run has sent the update to {0, 0, 0}. If the group was at
  {0, 0, 0}, its stored record is what it was before (none is created), the group is
  unchanged, and the run has sent no update for it.
\<close>

theorem scale_down_fleet_group:
  assumes "scale_down k8s_resources aws_asg_resources exclude_k8s exclude_asgs w = (Inr (), w')"
    and "n \<in> set (selected_asgs aws_asg_resources exclude_asgs w)"
    and "described n w = Some g"
  shows "(0 < MinSize g \<or> DesiredCapacity g \<noteq> 0 \<or> MaxSize g \<noteq> 0 \<longrightarrow>
            stored_record ASG_AWS_SSM_PARAMETER_NAME n w' = Some (capacity_json g) \<and>
            described n w' = Some (g\<lparr>MinSize := 0, DesiredCapacity := 0, MaxSize := 0\<rparr>) \<and>
            (\<exists>cs. calls w' = calls w @ cs \<and> UpdateASG n 0 0 0 \<in> set cs)) \<and>
         (MinSize g = 0 \<and> DesiredCapacity g = 0 \<and> MaxSize g = 0 \<longrightarrow>
            stored_record ASG_AWS_SSM_PARAMETER_NAME n w' =
              stored_record ASG_AWS_SSM_PARAMETER_NAME n w \<and>
            described n w' = Some g \<and>
            filter (is_update_of n) (calls w') = filter (is_update_of n) (calls w))"
proof -
  let ?upd = "\<lambda>w. filter (is_update_of n) (calls w)"
  let ?p = ASG_AWS_SSM_PARAMETER_NAME
  obtain wa where k8s: "scale_down_k8s k8s_resources exclude_k8s w = (Inr (), wa)"
    and aws: "scale_down_aws aws_asg_resources exclude_asgs wa = (Inr (), w')"
    using assms(1) by (auto simp: scale_down_def io_bind_Inr)
  have a1: "asgs wa = asgs w"
    using obeysD2 [OF scale_down_k8s_keeps_asgs k8s] by (simp add: keeps_def)
  have "map_of (ssm wa) ?p = map_of (ssm w) ?p"
    using obeysD2 [OF scale_down_k8s_keeps_asg_parameter k8s] by (simp add: keeps_def)
  then have s1: "stored_record ?p n wa = stored_record ?p n w" by (simp add: stored_record_def)
  have u1: "?upd wa = ?upd w"
    using obeysD2 [OF scale_down_k8s_keeps_updates k8s] by (simp add: keeps_def)
  obtain c1 where l1: "calls wa = calls w @ c1"
    using obeysD2 [OF scale_down_k8s_log_grows k8s] by (auto simp: log_grows_def)
  obtain w0 acc' wc where w0: "w0 = wa \<or> w0 = log DescribeAllASGs wa"
    and loop: "scale_down_asgs (selected_asgs aws_asg_resources exclude_asgs wa) [] w0 = (Inr acc', wc)"
    and store: "store_if_any ?p acc' wc = (Inr (), w')"
    using scale_down_aws_Inr [OF aws] by blast
  have sel: "n \<in> set (selected_asgs aws_asg_resources exclude_asgs wa)"
    using assms(2) selected_asgs_cong [OF a1] by simp
  have d0: "described n w0 = Some g"
    using w0 assms(3) described_cong [OF a1] by auto
  have s0: "stored_record ?p n w0 = stored_record ?p n w" using w0 s1 by auto
  have u0: "?upd w0 = ?upd w" using w0 u1 by auto
  obtain c2 where l0: "calls w0 = calls w @ c2" using w0 l1 by auto
  have dist: "distinct (map fst acc')" using scale_down_asgs_distinct [OF loop] by simp
  have "ssm wc = ssm w0" using obeysD2 [OF scale_down_asgs_keeps_ssm loop] by (simp add: keeps_def)
  then have sc: "stored_record ?p n wc = stored_record ?p n w" using s0 by (simp add: stored_record_def)
  have "asgs w' = asgs wc" using obeysD2 [OF store_if_any_keeps_asgs store] by (simp add: keeps_def)
  then have d': "described n w' = described n wc" by (rule described_cong)
  have u': "?upd w' = ?upd wc"
    using obeysD2 [OF store_if_any_keeps_updates store] by (simp add: keeps_def)
  obtain c4 where l': "calls w' = calls wc @ c4"
    using obeysD2 [OF store_if_any_log_grows store] by (auto simp: log_grows_def)
  note rec = store_if_any_record [OF store dist, of n]
  have touched: "stored_record ?p n w' = Some (capacity_json g) \<and>
      described n w' = Some (g\<lparr>MinSize := 0, DesiredCapacity := 0, MaxSize := 0\<rparr>) \<and>
      (\<exists>cs. calls w' = calls w @ cs \<and> UpdateASG n 0 0 0 \<in> set cs)"
    if "0 < MinSize g \<or> DesiredCapacity g \<noteq> 0 \<or> MaxSize g \<noteq> 0"
  proof -
    have "not_scaled_down g" using that by (simp add: not_scaled_down_def)
    from scale_down_asgs_touched [OF loop sel d0 this]
    obtain c3 where t: "map_of acc' n = Some (capacity_json g)" "described n wc = Some (zeroed g)"
      "calls wc = calls w0 @ c3" "UpdateASG n 0 0 0 \<in> set c3" by blast
    have "calls w' = calls w @ (c2 @ c3 @ c4)" using l' t(3) l0 by simp
    moreover have "UpdateASG n 0 0 0 \<in> set (c2 @ c3 @ c4)" using t(4) by simp
    ultimately have "\<exists>cs. calls w' = calls w @ cs \<and> UpdateASG n 0 0 0 \<in> set cs" by blast
    then show ?thesis using rec t(1,2) d' by (simp add: zeroed_def)
  qed
  have idle: "stored_record ?p n w' = stored_record ?p n w \<and> described n w' = Some g \<and>
      ?upd w' = ?upd w"
    if "MinSize g = 0 \<and> DesiredCapacity g = 0 \<and> MaxSize g = 0"
  proof -
    have "\<not> not_scaled_down g" using that by (simp add: not_scaled_down_def)
    then have "n \<notin> set (selected_asgs aws_asg_resources exclude_asgs wa) \<or>
        (\<exists>g. described n w0 = Some g \<and> \<not> not_scaled_down g)"
      using d0 by simp
    from scale_down_asgs_untouched [OF loop this]
    have t: "map_of acc' n = None" "described n wc = Some g" "?upd wc = ?upd w0"
      using d0 by simp_all
    show ?thesis using rec t d' u' u0 sc by simp
  qed
  show ?thesis using touched idle by blast
qed

lemma scale_down_busy_world:
  "scale_down None None None None busy_world = (Inr (), scaled_down_world)"
  by code_simp

lemma selected_asgs_busy_world: "selected_asgs None None busy_world = [''workers'', ''spare'']"
  by code_simp

lemma described_workers:
  "described ''workers'' busy_world =
     Some \<lparr>AutoScalingGroupName = ''workers'', MinSize = 1, DesiredCapacity = 3, MaxSize = 5\<rparr>"
  by code_simp

lemma described_spare:
  "described ''spare'' busy_world =
     Some \<lparr>AutoScalingGroupName = ''spare'', MinSize = 0, DesiredCapacity = 0, MaxSize = 0\<rparr>"
  by code_simp

text \<open>The group "workers" at {1, 3, 5} and the group "spare" at {0, 0, 0}.\<close>

theorem scale_down_fleet_group_witness:
  "stored_record ASG_AWS_SSM_PARAMETER_NAME ''workers'' scaled_down_world =
     Some (JObj [(''MinSize'', JInt 1), (''DesiredCapacity'', JInt 3), (''MaxSize'', JInt 5)]) \<and>
   described ''workers'' scaled_down_world =
     Some \<lparr>AutoScalingGroupName = ''workers'', MinSize = 0, DesiredCapacity = 0, MaxSize = 0\<rparr> \<and>
   (\<exists>cs. calls scaled_down_world = cs \<and> UpdateASG ''workers'' 0 0 0 \<in> set cs) \<and>
   stored_record ASG_AWS_SSM_PARAMETER_NAME ''spare'' scaled_down_world = None \<and>
   described ''spare'' scaled_down_world =
     Some \<lparr>AutoScalingGroupName = ''spare'', MinSize = 0, DesiredCapacity = 0, MaxSize = 0\<rparr> \<and>
   filter (is_update_of ''spare'') (calls scaled_down_world) = []"
proof -
  have w: "''workers'' \<in> set (selected_asgs None None busy_world)"
    and s: "''spare'' \<in> set (selected_asgs None None busy_world)"
    by (simp_all add: selected_asgs_busy_world)
  have e: "stored_record ASG_AWS_SSM_PARAMETER_NAME ''spare'' busy_world = None"
    "calls busy_world = []"
    by (simp_all add: stored_record_def busy_world_def)
  show ?thesis
    using scale_down_fleet_group [OF scale_down_busy_world w described_workers]
      scale_down_fleet_group [OF scale_down_busy_world s described_spare] e
    by (simp add: capacity_json_def)
qed

subsection \<open>The loop on workloads\<close>

lemma get_set_workloads [simp]: "get_workloads k (set_workloads k xs w) = xs"
  by (simp add: get_workloads_def set_workloads_def split: kind.splits)

lemma get_workloads_log [simp]: "get_workloads k (log c w) = get_workloads k w"
  by (simp add: get_workloads_def log_def split: kind.splits)

lemma get_workloads_calls [simp]: "get_workloads k (w\<lparr>calls := cs\<rparr>) = get_workloads k w"
  by (simp add: get_workloads_def split: kind.splits)

lemma set_set_workloads [simp]: "set_workloads k xs (set_workloads k ys w) = set_workloads k xs w"
  by (simp add: set_workloads_def split: kind.splits)

lemma calls_set_workloads [simp]: "calls (set_workloads k xs w) = calls w"
  by (simp add: set_workloads_def split: kind.splits)

lemma set_workloads_calls:
  "set_workloads k xs (w\<lparr>calls := cs\<rparr>) = (set_workloads k xs w)\<lparr>calls := cs\<rparr>"
  by (simp add: set_workloads_def split: kind.splits)

lemma set_get_workloads [simp]: "set_workloads k (get_workloads k w) w = w"
  by (simp add: set_workloads_def get_workloads_def split: kind.splits)

lemma patch_namespaced_zero:
  assumes "\<exists>obj \<in> set (get_workloads k w). same_object d obj"
  shows "patch_namespaced k (name d) (namespace d) (JInt 0) w =
           (Inr (), (set_workloads k (zero_those [d\<lparr>replicas := 1\<rparr>] (get_workloads k w)) w)
                      \<lparr>calls := calls w @ [PatchWorkload k (name d) (namespace d) (JInt 0)]\<rparr>)"
proof -
  have ex: "\<exists>obj \<in> set (get_workloads k w). is_named (name d) (namespace d) obj"
    using assms by (auto simp: same_object_def is_named_def)
  have m: "map (\<lambda>obj. if is_named (name d) (namespace d) obj then obj\<lparr>replicas := 0\<rparr> else obj)
             (get_workloads k w) = zero_those [d\<lparr>replicas := 1\<rparr>] (get_workloads k w)"
    by (auto simp: zero_those_def same_object_def is_named_def)
  show ?thesis
    using ex unfolding patch_namespaced_def m [symmetric]
    by (simp add: log_def set_workloads_def split: kind.splits)
qed

lemma zero_those_Nil [simp]: "zero_those [] live = live"
  by (simp add: zero_those_def)

lemma zero_those_step:
  "0 < replicas d \<Longrightarrow>
   zero_those ds (zero_those [d\<lparr>replicas := 1\<rparr>] live) = zero_those (d # ds) live"
  by (auto simp: zero_those_def same_object_def)

lemma zero_those_Cons_idle:
  "\<not> 0 < replicas d \<Longrightarrow> zero_those (d # ds) live = zero_those ds live"
  by (auto simp: zero_those_def)

lemma same_object_replicas_update [simp]:
  "same_object d (obj\<lparr>replicas := r\<rparr>) = same_object d obj"
  "same_object (obj\<lparr>replicas := r\<rparr>) d = same_object obj d"
  by (simp_all add: same_object_def)

lemma bex_map_same:
  assumes "\<And>obj. P (f obj) = P obj"
  shows "(\<exists>obj \<in> set (map f live). P obj) \<longleftrightarrow> (\<exists>obj \<in> set live. P obj)"
  by (induction live) (simp_all add: assms)

lemma same_object_zero_those:
  "(\<exists>obj \<in> set (zero_those ds live). same_object d obj) \<longleftrightarrow> (\<exists>obj \<in> set live. same_object d obj)"
  unfolding zero_those_def by (rule bex_map_same) simp

lemma scale_down_workloads_exact:
  assumes "\<forall>d \<in> set ds. 0 < replicas d \<longrightarrow> (\<exists>obj \<in> set (get_workloads k w). same_object d obj)"
  shows "scale_down_workloads k ds acc w =
           (Inr (captured k ds acc),
            (set_workloads k (zero_those ds (get_workloads k w)) w)
              \<lparr>calls := calls w @ zero_patches k ds\<rparr>)"
  using assms
proof (induction ds arbitrary: acc w)
  case Nil
  then show ?case by (simp add: zero_patches_def)
next
  case (Cons d ds)
  show ?case
  proof (cases "0 < replicas d")
    case False
    then show ?thesis
      using Cons.IH [of w acc] Cons.prems
      by (simp add: zero_those_Cons_idle zero_patches_def)
  next
    case True
    let ?w1 = "(set_workloads k (zero_those [d\<lparr>replicas := 1\<rparr>] (get_workloads k w)) w)
                 \<lparr>calls := calls w @ [PatchWorkload k (name d) (namespace d) (JInt 0)]\<rparr>"
    have ex: "\<exists>obj \<in> set (get_workloads k w). same_object d obj" using Cons.prems True by simp
    have step: "patch_namespaced k (name d) (namespace d) (JInt 0) w = (Inr (), ?w1)"
      using ex by (rule patch_namespaced_zero)
    have pre: "\<forall>d' \<in> set ds. 0 < replicas d' \<longrightarrow>
                 (\<exists>obj \<in> set (get_workloads k ?w1). same_object d' obj)"
      using Cons.prems by (simp add: same_object_zero_those)
    have "scale_down_workloads k (d # ds) acc w =
            scale_down_workloads k ds (dict_set acc (record_key k d) (JInt (replicas d))) ?w1"
      using True step by simp
    also have "\<dots> = (Inr (captured k ds (dict_set acc (record_key k d) (JInt (replicas d)))),
            (set_workloads k (zero_those ds (get_workloads k ?w1)) ?w1)
              \<lparr>calls := calls ?w1 @ zero_patches k ds\<rparr>)"
      using pre by (rule Cons.IH)
    also have "\<dots> = (Inr (captured k (d # ds) acc),
            (set_workloads k (zero_those (d # ds) (get_workloads k w)) w)
              \<lparr>calls := calls w @ zero_patches k (d # ds)\<rparr>)"
      using True
      by (simp add: zero_those_step zero_patches_def set_workloads_calls)
    finally show ?thesis .
  qed
qed

lemma captured_idle: "\<forall>d \<in> set ds. \<not> 0 < replicas d \<Longrightarrow> captured k ds acc = acc"
  by (induction ds arbitrary: acc) simp_all

lemma zero_those_idle: "\<forall>d \<in> set ds. \<not> 0 < replicas d \<Longrightarrow> zero_those ds live = live"
  by (induction live) (auto simp: zero_those_def)

lemma scale_down_workloads_idle:
  assumes "\<forall>d \<in> set ds. \<not> 0 < replicas d"
  shows "scale_down_workloads k ds acc w = (Inr acc, w)"
proof -
  have "\<forall>d \<in> set ds. 0 < replicas d \<longrightarrow> (\<exists>obj \<in> set (get_workloads k w). same_object d obj)"
    using assms by blast
  then show ?thesis
    using assms
    by (simp add: scale_down_workloads_exact captured_idle zero_those_idle zero_patches_def)
qed

subsection \<open>Fetching the objects\<close>

lemma same_but_log_trans: "same_but_log a b \<Longrightarrow> same_but_log b c \<Longrightarrow> same_but_log a c"
  using preorder_same_but_log by (rule preorder_trans)

lemma same_but_log_log3: "same_but_log w (log c3 (log c2 (log c1 w)))"
  by (meson same_but_log_log same_but_log_trans)

lemma read_each_Inr:
  assumes rd: "\<And>nm ns w. rd nm ns w =
      (case find (is_named nm ns) (proj w) of
         None \<Rightarrow> (Inl ApiException, log (c nm ns) w)
       | Some obj \<Rightarrow> (Inr obj, log (c nm ns) w))"
    and proj: "\<And>c w. proj (log c w) = proj w"
    and run: "read_each rd refs w = (Inr xs, w')"
  shows "those (lookups refs (proj w)) = Some xs \<and> same_but_log w w'"
  using run
proof (induction refs arbitrary: w xs)
  case Nil
  then show ?case by (simp add: lookups_def same_but_log_refl)
next
  case (Cons res refs)
  let ?w1 = "log (c (ref_name res) (ref_namespace res)) w"
  obtain obj where f: "find (is_named (ref_name res) (ref_namespace res)) (proj w) = Some obj"
    using Cons.prems by (cases "find (is_named (ref_name res) (ref_namespace res)) (proj w)")
      (simp_all add: rd)
  then have step: "rd (ref_name res) (ref_namespace res) w = (Inr obj, ?w1)" by (simp add: rd)
  obtain ys where rest: "read_each rd refs ?w1 = (Inr ys, w')" and xs: "xs = obj # ys"
    using Cons.prems step by (auto split: prod.splits sum.splits)
  have "those (lookups refs (proj ?w1)) = Some ys \<and> same_but_log ?w1 w'"
    using rest by (rule Cons.IH)
  then have "those (lookups refs (proj w)) = Some ys" and "same_but_log w w'"
    using same_but_log_log [of w] same_but_log_trans by (auto simp: proj)
  then show ?case using f xs by (simp add: lookups_def)
qed

lemma read_each_those:
  assumes rd: "\<And>nm ns w. rd nm ns w =
      (case find (is_named nm ns) (proj w) of
         None \<Rightarrow> (Inl ApiException, log (c nm ns) w)
       | Some obj \<Rightarrow> (Inr obj, log (c nm ns) w))"
    and proj: "\<And>c w. proj (log c w) = proj w"
    and ok: "those (lookups refs (proj w)) = Some xs"
  shows "\<exists>w'. read_each rd refs w = (Inr xs, w') \<and> same_but_log w w'"
  using ok
proof (induction refs arbitrary: w xs)
  case Nil
  then show ?case using same_but_log_refl by (auto simp: lookups_def)
next
  case (Cons res refs)
  let ?w1 = "log (c (ref_name res) (ref_namespace res)) w"
  obtain obj ys where f: "find (is_named (ref_name res) (ref_namespace res)) (proj w) = Some obj"
    and ys: "those (lookups refs (proj w)) = Some ys" and xs: "xs = obj # ys"
    using Cons.prems by (auto simp: lookups_def split: option.splits)
  have step: "rd (ref_name res) (ref_namespace res) w = (Inr obj, ?w1)" using f by (simp add: rd)
  have "those (lookups refs (proj ?w1)) = Some ys" using ys by (simp add: proj)
  then obtain w' where rest: "read_each rd refs ?w1 = (Inr ys, w')" and l: "same_but_log ?w1 w'"
    using Cons.IH by blast
  have "read_each rd (res # refs) w = (Inr xs, w')" using step rest xs by simp
  moreover have "same_but_log w w'" using same_but_log_log l by (rule same_but_log_trans)
  ultimately show ?case by blast
qed

lemma deployments_log [simp]: "deployments (log c w) = deployments w"
  and statefulsets_log [simp]: "statefulsets (log c w) = statefulsets w"
  and cronjobs_log [simp]: "cronjobs (log c w) = cronjobs w"
  and asgs_log [simp]: "asgs (log c w) = asgs w"
  and ssm_log [simp]: "ssm (log c w) = ssm w"
  by (simp_all add: log_def)

lemma same_but_log_fields:
  assumes "same_but_log w w'"
  shows "deployments w' = deployments w" "statefulsets w' = statefulsets w"
    "cronjobs w' = cronjobs w" "asgs w' = asgs w" "ssm w' = ssm w"
    "get_workloads k w' = get_workloads k w"
  using assms by (auto simp: same_but_log_def)

lemma fetch_k8s_resources_Inr:
  assumes "fetch_k8s_resources r w = (Inr (D, S, C), w')"
  shows "wanted r ''deployment'' (deployments w) = Some D \<and>
         wanted r ''statefulset'' (statefulsets w) = Some S \<and>
         wanted r ''cronjob'' (cronjobs w) = Some C \<and> same_but_log w w'"
proof (cases "py_not r")
  case True
  have "w' = log ListCronJobs (log (ListWorkloads StatefulSet) (log (ListWorkloads Deployment) w))"
    and "D = deployments w" and "S = statefulsets w" and "C = cronjobs w"
    using assms True
    by (simp_all add: fetch_k8s_resources_def io_bind_def io_return_def
        list_for_all_namespaces_def list_cron_job_for_all_namespaces_def get_workloads_def)
  then show ?thesis
    using True same_but_log_log3 by (simp add: wanted_def)
next
  case False
  let ?refs = "the r"
  obtain w1 w2 where
    1: "read_each (read_namespaced Deployment) (of_kind ''deployment'' ?refs) w = (Inr D, w1)" and
    2: "read_each (read_namespaced StatefulSet) (of_kind ''statefulset'' ?refs) w1 = (Inr S, w2)" and
    3: "read_each read_namespaced_cron_job (of_kind ''cronjob'' ?refs) w2 = (Inr C, w')"
    using assms False by (auto simp: fetch_k8s_resources_def io_bind_Inr io_return_def)
  have a: "those (lookups (of_kind ''deployment'' ?refs) (deployments w)) = Some D \<and> same_but_log w w1"
    by (rule read_each_Inr [where proj = deployments and c = "ReadWorkload Deployment", OF _ _ 1])
       (simp_all add: read_namespaced_def get_workloads_def)
  have b: "those (lookups (of_kind ''statefulset'' ?refs) (statefulsets w1)) = Some S \<and> same_but_log w1 w2"
    by (rule read_each_Inr [where proj = statefulsets and c = "ReadWorkload StatefulSet", OF _ _ 2])
       (simp_all add: read_namespaced_def get_workloads_def)
  have c: "those (lookups (of_kind ''cronjob'' ?refs) (cronjobs w2)) = Some C \<and> same_but_log w2 w'"
    by (rule read_each_Inr [where proj = cronjobs and c = ReadCronJob, OF _ _ 3])
       (simp_all add: read_namespaced_cron_job_def)
  have l2: "same_but_log w w2" using a b same_but_log_trans by blast
  then have l3: "same_but_log w w'" using c same_but_log_trans by blast
  show ?thesis
    using False a b c l3 same_but_log_fields [OF conjunct2 [OF a]] same_but_log_fields [OF l2]
    by (simp add: wanted_def)
qed

lemma fetch_k8s_resources_wanted:
  assumes "wanted r ''deployment'' (deployments w) = Some D"
    and "wanted r ''statefulset'' (statefulsets w) = Some S"
    and "wanted r ''cronjob'' (cronjobs w) = Some C"
  shows "\<exists>w'. fetch_k8s_resources r w = (Inr (D, S, C), w') \<and> same_but_log w w'"
proof (cases "py_not r")
  case True
  let ?w' = "log ListCronJobs (log (ListWorkloads StatefulSet) (log (ListWorkloads Deployment) w))"
  have "fetch_k8s_resources r w = (Inr (D, S, C), ?w')"
    using assms True
    by (simp add: wanted_def fetch_k8s_resources_def io_bind_def io_return_def
        list_for_all_namespaces_def list_cron_job_for_all_namespaces_def get_workloads_def)
  moreover have "same_but_log w ?w'"
    by (rule same_but_log_log3)
  ultimately show ?thesis by blast
next
  case False
  let ?refs = "the r"
  have d: "those (lookups (of_kind ''deployment'' ?refs) (deployments w)) = Some D"
    using assms(1) False by (simp add: wanted_def)
  obtain w1 where
    1: "read_each (read_namespaced Deployment) (of_kind ''deployment'' ?refs) w = (Inr D, w1)"
    and l1: "same_but_log w w1"
    using read_each_those [where proj = deployments and c = "ReadWorkload Deployment"
        and rd = "read_namespaced Deployment", OF _ _ d]
    by (auto simp: read_namespaced_def get_workloads_def)
  have "those (lookups (of_kind ''statefulset'' ?refs) (statefulsets w1)) = Some S"
    using assms(2) False same_but_log_fields [OF l1] by (simp add: wanted_def)
  then obtain w2 where
    2: "read_each (read_namespaced StatefulSet) (of_kind ''statefulset'' ?refs) w1 = (Inr S, w2)"
    and l2: "same_but_log w1 w2"
    using read_each_those [where proj = statefulsets and c = "ReadWorkload StatefulSet"
        and rd = "read_namespaced StatefulSet" and w = w1]
    by (auto simp: read_namespaced_def get_workloads_def)
  have l12: "same_but_log w w2" using l1 l2 by (rule same_but_log_trans)
  have "those (lookups (of_kind ''cronjob'' ?refs) (cronjobs w2)) = Some C"
    using assms(3) False same_but_log_fields [OF l12] by (simp add: wanted_def)
  then obtain w' where
    3: "read_each read_namespaced_cron_job (of_kind ''cronjob'' ?refs) w2 = (Inr C, w')"
    and l3: "same_but_log w2 w'"
    using read_each_those [where proj = cronjobs and c = ReadCronJob
        and rd = read_namespaced_cron_job and w = w2]
    by (auto simp: read_namespaced_cron_job_def)
  have "fetch_k8s_resources r w = (Inr (D, S, C), w')"
    using False 1 2 3 by (simp add: fetch_k8s_resources_def io_bind_def io_return_def)
  moreover have "same_but_log w w'" using l12 l3 by (rule same_but_log_trans)
  ultimately show ?thesis by blast
qed

subsection \<open>The objects a scale-down works on\<close>

lemma those_lookups_subset:
  "those (lookups refs live) = Some xs \<Longrightarrow> set xs \<subseteq> set live"
proof (induction refs arbitrary: xs)
  case Nil
  then show ?case by (simp add: lookups_def)
next
  case (Cons res refs)
  obtain obj ys where f: "find (is_named (ref_name res) (ref_namespace res)) live = Some obj"
    and ys: "those (lookups refs live) = Some ys" and xs: "xs = obj # ys"
    using Cons.prems by (auto simp: lookups_def split: option.splits)
  have "obj \<in> set live" using f by (auto simp: find_Some_iff)
  then show ?case using Cons.IH [OF ys] xs by simp
qed

lemma wanted_subset: "wanted r kd live = Some xs \<Longrightarrow> set xs \<subseteq> set live"
  by (auto simp: wanted_def dest: those_lookups_subset split: if_splits)

lemma filter_excluded_subset: "set (filter_excluded_k8s_resources kd xs e) \<subseteq> set xs"
  by (auto simp: filter_excluded_k8s_resources_def Let_def)

text \<open>A change of the live objects that keeps their names commutes with the selection.\<close>

lemma find_map_named:
  assumes "\<And>obj. name (f obj) = name obj" and "\<And>obj. namespace (f obj) = namespace obj"
  shows "find (is_named nm ns) (map f live) = map_option f (find (is_named nm ns) live)"
  by (induction live) (simp_all add: is_named_def assms)

lemma those_map_option:
  "those (map (map_option f) xs) = map_option (map f) (those xs)"
  by (induction xs) (auto simp: option.map_comp comp_def split: option.splits)

lemma lookups_map:
  assumes "\<And>obj. name (f obj) = name obj" and "\<And>obj. namespace (f obj) = namespace obj"
  shows "lookups refs (map f live) = map (map_option f) (lookups refs live)"
  by (simp add: lookups_def find_map_named [of f, OF assms])

lemma wanted_map:
  assumes "\<And>obj. name (f obj) = name obj" and "\<And>obj. namespace (f obj) = namespace obj"
  shows "wanted r kd (map f live) = map_option (map f) (wanted r kd live)"
  by (simp add: wanted_def lookups_map [of f, OF assms] those_map_option)

lemma filter_excluded_map:
  assumes "\<And>obj. name (f obj) = name obj" and "\<And>obj. namespace (f obj) = namespace obj"
  shows "filter_excluded_k8s_resources kd (map f xs) e =
           map f (filter_excluded_k8s_resources kd xs e)"
  by (simp add: filter_excluded_k8s_resources_def Let_def filter_map comp_def assms)

subsection \<open>The workload phase of a scale-down that completes\<close>

lemma store_if_any_keeps_live:
  "obeys (keeps (\<lambda>w. (deployments w, statefulsets w, cronjobs w, asgs w))) (store_if_any p acc)"
  by (rule obeys_store_if_any)
     (simp_all add: preorder_keeps, simp_all add: obeys_def keeps_def client_defs split: client_splits)

lemma same_object_member: "d \<in> set xs \<Longrightarrow> \<exists>obj \<in> set xs. same_object d obj"
  using same_object_refl by blast

lemma scale_down_k8s_Inr:
  assumes "scale_down_k8s r e w = (Inr (), wa)"
  shows "\<exists>D S C w3.
           wanted r ''deployment'' (deployments w) = Some D \<and>
           wanted r ''statefulset'' (statefulsets w) = Some S \<and>
           wanted r ''cronjob'' (cronjobs w) = Some C \<and>
           deployments wa =
             zero_those (filter_excluded_k8s_resources ''Deployment'' D e) (deployments w) \<and>
           statefulsets wa =
             zero_those (filter_excluded_k8s_resources ''StatefulSet'' S e) (statefulsets w) \<and>
           cronjobs wa =
             suspend_those True (filter_excluded_k8s_resources ''CronJob'' C e) (cronjobs w) \<and>
           asgs wa = asgs w \<and>
           ssm w3 = ssm w \<and>
           store_if_any K8S_AWS_SSM_PARAMETER_NAME
             (captured StatefulSet (filter_excluded_k8s_resources ''StatefulSet'' S e)
                (captured Deployment (filter_excluded_k8s_resources ''Deployment'' D e) []))
             w3 = (Inr (), wa)"
proof -
  obtain D S C w0 acc1 w1 acc2 w2 w3 where
    fetch: "fetch_k8s_resources r w = (Inr (D, S, C), w0)" and
    l1: "scale_down_workloads Deployment (filter_excluded_k8s_resources ''Deployment'' D e) [] w0
           = (Inr acc1, w1)" and
    l2: "scale_down_workloads StatefulSet (filter_excluded_k8s_resources ''StatefulSet'' S e) acc1 w1
           = (Inr acc2, w2)" and
    l3: "patch_cronjobs True (filter_excluded_k8s_resources ''CronJob'' C e) w2 = (Inr (), w3)" and
    st: "store_if_any K8S_AWS_SSM_PARAMETER_NAME acc2 w3 = (Inr (), wa)"
    using assms unfolding scale_down_k8s_def by (force simp: io_bind_Inr)
  let ?D = "filter_excluded_k8s_resources ''Deployment'' D e"
  let ?S = "filter_excluded_k8s_resources ''StatefulSet'' S e"
  let ?C = "filter_excluded_k8s_resources ''CronJob'' C e"
  note w = fetch_k8s_resources_Inr [OF fetch]
  note f0 = same_but_log_fields [OF conjunct2 [OF conjunct2 [OF conjunct2 [OF w]]]]
  have D: "set ?D \<subseteq> set (deployments w)"
    using w wanted_subset filter_excluded_subset by fast
  have S: "set ?S \<subseteq> set (statefulsets w)"
    using w wanted_subset filter_excluded_subset by fast
  have C: "set ?C \<subseteq> set (cronjobs w)"
    using w wanted_subset filter_excluded_subset by fast
  have "\<forall>d \<in> set ?D. 0 < replicas d \<longrightarrow> (\<exists>obj \<in> set (get_workloads Deployment w0). same_object d obj)"
    using D f0 same_object_member by (fastforce simp: get_workloads_def)
  from scale_down_workloads_exact [OF this, of "[]"] l1
  have acc1: "acc1 = captured Deployment ?D []"
    and w1: "w1 = (set_workloads Deployment (zero_those ?D (deployments w)) w0)
                    \<lparr>calls := calls w0 @ zero_patches Deployment ?D\<rparr>"
    using f0 by (simp_all add: get_workloads_def)
  have "\<forall>d \<in> set ?S. 0 < replicas d \<longrightarrow> (\<exists>obj \<in> set (get_workloads StatefulSet w1). same_object d obj)"
    using S f0 w1 same_object_member by (fastforce simp: get_workloads_def set_workloads_def)
  from scale_down_workloads_exact [OF this, of acc1] l2
  have acc2: "acc2 = captured StatefulSet ?S acc1"
    and w2: "w2 = (set_workloads StatefulSet (zero_those ?S (statefulsets w)) w1)
                    \<lparr>calls := calls w1 @ zero_patches StatefulSet ?S\<rparr>"
    using f0 w1 by (simp_all add: get_workloads_def set_workloads_def)
  have "\<forall>c \<in> set ?C. \<exists>obj \<in> set (cronjobs w2). same_object c obj"
    using C f0 w1 w2 same_object_member by (fastforce simp: set_workloads_def)
  from patch_cronjobs_exact [OF this, of True] l3
  have w3: "w3 = w2\<lparr>cronjobs := suspend_those True ?C (cronjobs w),
                     calls := calls w2 @ cron_patches True ?C\<rparr>"
    using f0 w1 w2 by (simp add: set_workloads_def)
  have live3: "deployments w3 = zero_those ?D (deployments w)"
    "statefulsets w3 = zero_those ?S (statefulsets w)"
    "cronjobs w3 = suspend_those True ?C (cronjobs w)" "asgs w3 = asgs w" "ssm w3 = ssm w"
    using w1 w2 w3 f0 by (simp_all add: set_workloads_def)
  have "(deployments wa, statefulsets wa, cronjobs wa, asgs wa) =
        (deployments w3, statefulsets w3, cronjobs w3, asgs w3)"
    using obeysD2 [OF store_if_any_keeps_live st] by (simp add: keeps_def)
  then show ?thesis using w live3 st acc1 acc2 by auto
qed

subsection \<open>A second scale-down: the workload phase\<close>

lemma zero_those_map: "zero_those ds live = map (zero_if ds) live"
  by (simp add: zero_those_def zero_if_def)

lemma suspend_those_map: "suspend_those True cs live = map (suspend_if cs) live"
  by (simp add: suspend_those_def suspend_if_def)

lemma zero_if_names [simp]:
  "name (zero_if ds obj) = name obj" "namespace (zero_if ds obj) = namespace obj"
  by (simp_all add: zero_if_def)

lemma suspend_if_names [simp]:
  "name (suspend_if cs obj) = name obj" "namespace (suspend_if cs obj) = namespace obj"
  by (simp_all add: suspend_if_def)

lemma zero_if_settles: "obj \<in> set ds \<Longrightarrow> \<not> 0 < replicas (zero_if ds obj)"
  using same_object_refl by (auto simp: zero_if_def)

lemma same_object_suspend_if [simp]: "same_object (suspend_if cs c) obj = same_object c obj"
  "same_object c (suspend_if cs obj) = same_object c obj"
  by (simp_all add: same_object_def)

lemma same_object_suspend_update [simp]:
  "same_object (obj\<lparr>suspend := b\<rparr>) d = same_object obj d"
  "same_object d (obj\<lparr>suspend := b\<rparr>) = same_object d obj"
  by (simp_all add: same_object_def)

lemma suspend_if_twice:
  "suspend_those True (map (suspend_if cs) cs) (map (suspend_if cs) live) = map (suspend_if cs) live"
proof -
  have "(if \<exists>c \<in> set (map (suspend_if cs) cs). same_object c (suspend_if cs obj)
         then (suspend_if cs obj)\<lparr>suspend := True\<rparr> else suspend_if cs obj) = suspend_if cs obj"
    for obj
  proof (cases "\<exists>c \<in> set cs. same_object c obj")
    case True
    then show ?thesis by (simp add: suspend_if_def)
  next
    case False
    then show ?thesis by simp
  qed
  then show ?thesis by (simp add: suspend_those_def)
qed

lemma store_if_any_Nil: "store_if_any p [] w = (Inr (), w)"
  by (simp add: store_if_any_def io_return_def)

lemma scale_down_k8s_settled:
  assumes D: "wanted r ''deployment'' (deployments v) = Some D"
    and S: "wanted r ''statefulset'' (statefulsets v) = Some S"
    and C: "wanted r ''cronjob'' (cronjobs v) = Some C"
    and zD: "\<forall>d \<in> set (filter_excluded_k8s_resources ''Deployment'' D e). \<not> 0 < replicas d"
    and zS: "\<forall>d \<in> set (filter_excluded_k8s_resources ''StatefulSet'' S e). \<not> 0 < replicas d"
    and zC: "suspend_those True (filter_excluded_k8s_resources ''CronJob'' C e) (cronjobs v) = cronjobs v"
  shows "\<exists>v'. scale_down_k8s r e v = (Inr (), v') \<and> same_but_log v v'"
proof -
  let ?C = "filter_excluded_k8s_resources ''CronJob'' C e"
  obtain v0 where fetch: "fetch_k8s_resources r v = (Inr (D, S, C), v0)" and l0: "same_but_log v v0"
    using fetch_k8s_resources_wanted [OF D S C] by blast
  note f0 = same_but_log_fields [OF l0]
  have "set ?C \<subseteq> set (cronjobs v0)"
    using wanted_subset [OF C] filter_excluded_subset [of "''CronJob''" C e] f0(3) by auto
  then have "\<forall>c \<in> set ?C. \<exists>obj \<in> set (cronjobs v0). same_object c obj"
    using same_object_member by fast
  from patch_cronjobs_exact [OF this, of True]
  have cron: "patch_cronjobs True ?C v0 = (Inr (), v0\<lparr>calls := calls v0 @ cron_patches True ?C\<rparr>)"
    using zC f0 by simp
  have "scale_down_k8s r e v = (Inr (), v0\<lparr>calls := calls v0 @ cron_patches True ?C\<rparr>)"
    unfolding scale_down_k8s_def
    by (simp add: io_bind_def fetch scale_down_workloads_idle [OF zD]
          scale_down_workloads_idle [OF zS] cron store_if_any_Nil)
  moreover have "same_but_log v0 (v0\<lparr>calls := calls v0 @ cron_patches True ?C\<rparr>)"
    unfolding same_but_log_def by blast
  ultimately show ?thesis using l0 same_but_log_trans by blast
qed

lemma scale_down_k8s_settles:
  assumes run: "scale_down_k8s r e w = (Inr (), wa)"
    and v: "deployments v = deployments wa" "statefulsets v = statefulsets wa"
      "cronjobs v = cronjobs wa"
  shows "\<exists>v'. scale_down_k8s r e v = (Inr (), v') \<and> same_but_log v v'"
proof -
  obtain D S C where
    D: "wanted r ''deployment'' (deployments w) = Some D" and
    S: "wanted r ''statefulset'' (statefulsets w) = Some S" and
    C: "wanted r ''cronjob'' (cronjobs w) = Some C" and
    dep: "deployments wa =
            zero_those (filter_excluded_k8s_resources ''Deployment'' D e) (deployments w)" and
    sts: "statefulsets wa =
            zero_those (filter_excluded_k8s_resources ''StatefulSet'' S e) (statefulsets w)" and
    cj: "cronjobs wa =
            suspend_those True (filter_excluded_k8s_resources ''CronJob'' C e) (cronjobs w)"
    using scale_down_k8s_Inr [OF run] by blast
  let ?D = "filter_excluded_k8s_resources ''Deployment'' D e"
  let ?S = "filter_excluded_k8s_resources ''StatefulSet'' S e"
  let ?C = "filter_excluded_k8s_resources ''CronJob'' C e"
  have D2: "wanted r ''deployment'' (deployments v) = Some (map (zero_if ?D) D)"
    using D by (simp add: v dep zero_those_map wanted_map)
  have S2: "wanted r ''statefulset'' (statefulsets v) = Some (map (zero_if ?S) S)"
    using S by (simp add: v sts zero_those_map wanted_map)
  have C2: "wanted r ''cronjob'' (cronjobs v) = Some (map (suspend_if ?C) C)"
    using C by (simp add: v cj suspend_those_map wanted_map)
  have zD: "\<forall>d \<in> set (filter_excluded_k8s_resources ''Deployment'' (map (zero_if ?D) D) e).
              \<not> 0 < replicas d"
    by (simp add: filter_excluded_map zero_if_settles)
  have zS: "\<forall>d \<in> set (filter_excluded_k8s_resources ''StatefulSet'' (map (zero_if ?S) S) e).
              \<not> 0 < replicas d"
    by (simp add: filter_excluded_map zero_if_settles)
  have zC: "suspend_those True (filter_excluded_k8s_resources ''CronJob'' (map (suspend_if ?C) C) e)
              (cronjobs v) = cronjobs v"
    by (simp add: filter_excluded_map v cj suspend_those_map [of ?C] suspend_if_twice)
  show ?thesis using D2 S2 C2 zD zS zC by (rule scale_down_k8s_settled)
qed

subsection \<open>A second scale-down: the fleet phase\<close>

lemma scale_down_asgs_settled:
  assumes "\<forall>n \<in> set names. \<exists>g. described n v = Some g \<and> \<not> not_scaled_down g"
  shows "\<exists>v'. scale_down_asgs names acc v = (Inr acc, v') \<and> same_but_log v v'"
  using assms
proof (induction names arbitrary: v)
  case Nil
  then show ?case using same_but_log_refl by auto
next
  case (Cons n names)
  obtain g where g: "described n v = Some g" "\<not> not_scaled_down g" using Cons.prems by auto
  let ?v1 = "log (DescribeASG n) v"
  have "\<forall>m \<in> set names. \<exists>g. described m ?v1 = Some g \<and> \<not> not_scaled_down g"
    using Cons.prems by simp
  then obtain v' where r: "scale_down_asgs names acc ?v1 = (Inr acc, v')" and l: "same_but_log ?v1 v'"
    using Cons.IH by blast
  have "scale_down_asgs (n # names) acc v = (Inr acc, v')"
    using scale_down_asgs_idle [OF g] r by simp
  moreover have "same_but_log v v'" using same_but_log_log l by (rule same_but_log_trans)
  ultimately show ?case by blast
qed

lemma scale_down_asgs_exists:
  assumes "scale_down_asgs names acc w = (Inr acc', w')" and "n \<in> set names"
  shows "\<exists>g. described n w = Some g"
  using assms
proof (induction names arbitrary: acc w)
  case Nil
  then show ?case by simp
next
  case (Cons m names)
  show ?case
  proof (cases "described m w")
    case None
    then show ?thesis
      using Cons.prems(1) by (simp add: scale_down_asgs_absent del: scale_down_asgs.simps)
  next
    case (Some gm)
    show ?thesis
    proof (cases "m = n")
      case True
      then show ?thesis using Some by simp
    next
      case False
      then have mem: "n \<in> set names" using Cons.prems(2) by simp
      show ?thesis
      proof (cases "not_scaled_down gm")
        case idle: False
        have "scale_down_asgs names acc (log (DescribeASG m) w) = (Inr acc', w')"
          using Cons.prems(1) scale_down_asgs_idle [OF Some idle] by simp
        from Cons.IH [OF this mem] show ?thesis by simp
      next
        case act: True
        have "scale_down_asgs names (dict_set acc m (capacity_json gm)) (after_update m w)
                = (Inr acc', w')"
          using Cons.prems(1) scale_down_asgs_act [OF Some act] by simp
        from Cons.IH [OF this mem] show ?thesis
          using False by (simp add: described_after_update_other)
      qed
    qed
  qed
qed

lemma scale_down_asgs_settles:
  assumes "scale_down_asgs names acc w = (Inr acc', w')"
  shows "\<forall>n \<in> set names. \<exists>g. described n w' = Some g \<and> \<not> not_scaled_down g"
proof
  fix n assume n: "n \<in> set names"
  obtain g where g: "described n w = Some g" using scale_down_asgs_exists [OF assms n] by blast
  show "\<exists>g. described n w' = Some g \<and> \<not> not_scaled_down g"
  proof (cases "not_scaled_down g")
    case True
    then show ?thesis using scale_down_asgs_touched [OF assms n g] by auto
  next
    case False
    then have "n \<notin> set names \<or> (\<exists>g. described n w = Some g \<and> \<not> not_scaled_down g)"
      using g by simp
    from scale_down_asgs_untouched [OF assms this] show ?thesis using g False by simp
  qed
qed

lemma scale_down_asgs_keeps_names:
  "obeys (keeps (\<lambda>w. map AutoScalingGroupName (asgs w))) (scale_down_asgs names acc)"
  by (rule obeys_scale_down_asgs)
     (simp_all add: preorder_keeps, simp_all add: obeys_def keeps_def client_defs comp_def)

lemma selected_asgs_names:
  "map AutoScalingGroupName (asgs w') = map AutoScalingGroupName (asgs w) \<Longrightarrow>
   selected_asgs a e w' = selected_asgs a e w"
  by (simp add: selected_asgs_def)

lemma scale_down_aws_settled:
  assumes "\<forall>n \<in> set (selected_asgs a e v). \<exists>g. described n v = Some g \<and> \<not> not_scaled_down g"
  shows "\<exists>v'. scale_down_aws a e v = (Inr (), v') \<and> same_but_log v v'"
proof -
  obtain v0 where f: "fetch_asgs a v =
      (Inr (if py_not a then map AutoScalingGroupName (asgs v) else the a), v0)"
    and v0: "v0 = v \<or> v0 = log DescribeAllASGs v"
    using fetch_asgs_exact by blast
  have l0: "same_but_log v v0" using v0 same_but_log_refl same_but_log_log by auto
  have "\<forall>n \<in> set (selected_asgs a e v). \<exists>g. described n v0 = Some g \<and> \<not> not_scaled_down g"
    using assms v0 by auto
  then obtain v' where r: "scale_down_asgs (selected_asgs a e v) [] v0 = (Inr [], v')"
    and l: "same_but_log v0 v'"
    using scale_down_asgs_settled by blast
  have "scale_down_aws a e v = (Inr (), v')"
    using f r unfolding scale_down_aws_def selected_asgs_def
    by (simp add: io_bind_def store_if_any_Nil)
  moreover have "same_but_log v v'" using l0 l by (rule same_but_log_trans)
  ultimately show ?thesis by blast
qed

lemma scale_down_aws_settles:
  assumes "scale_down_aws a e w = (Inr (), w')"
  shows "\<forall>n \<in> set (selected_asgs a e w'). \<exists>g. described n w' = Some g \<and> \<not> not_scaled_down g"
proof -
  obtain w0 acc' wc where w0: "w0 = w \<or> w0 = log DescribeAllASGs w"
    and loop: "scale_down_asgs (selected_asgs a e w) [] w0 = (Inr acc', wc)"
    and store: "store_if_any ASG_AWS_SSM_PARAMETER_NAME acc' wc = (Inr (), w')"
    using scale_down_aws_Inr [OF assms] by blast
  have a': "asgs w' = asgs wc"
    using obeysD2 [OF store_if_any_keeps_asgs store] by (simp add: keeps_def)
  have "map AutoScalingGroupName (asgs wc) = map AutoScalingGroupName (asgs w0)"
    using obeysD2 [OF scale_down_asgs_keeps_names loop] by (simp add: keeps_def)
  then have "map AutoScalingGroupName (asgs w') = map AutoScalingGroupName (asgs w)"
    using a' w0 by auto
  then have sel: "selected_asgs a e w' = selected_asgs a e w" by (rule selected_asgs_names)
  show ?thesis
    using scale_down_asgs_settles [OF loop] sel described_cong [OF a'] by simp
qed

lemma scale_down_aws_keeps_k8s:
  "obeys (keeps (\<lambda>w. (deployments w, statefulsets w, cronjobs w))) (scale_down_aws a e)"
  by (rule obeys_scale_down_aws)
     (simp_all add: preorder_keeps, simp_all add: obeys_def keeps_def client_defs split: client_splits)

subsection \<open>Scale-down twice\<close>

text \<open>
  Claim C3. After a scale-down that completed, a second scale-down with the same
  arguments completes and changes nothing but the log of requests: the replica counts,
  the suspend flags, the fleet capacities and the whole store, so every record the first
  run captured, are what the first run left.
\<close>

theorem scale_down_twice:
  assumes "scale_down k8s_resources aws_asg_resources exclude_k8s exclude_asgs w = (Inr (), w1)"
  shows "\<exists>w2. scale_down k8s_resources aws_asg_resources exclude_k8s exclude_asgs w1 = (Inr (), w2) \<and>
              deployments w2 = deployments w1 \<and> statefulsets w2 = statefulsets w1 \<and>
              cronjobs w2 = cronjobs w1 \<and> asgs w2 = asgs w1 \<and> ssm w2 = ssm w1 \<and>
              (\<exists>cs. w2 = w1\<lparr>calls := calls w1 @ cs\<rparr>)"
proof -
  obtain wa where k8s: "scale_down_k8s k8s_resources exclude_k8s w = (Inr (), wa)"
    and aws: "scale_down_aws aws_asg_resources exclude_asgs wa = (Inr (), w1)"
    using assms by (auto simp: scale_down_def io_bind_Inr)
  have "(deployments w1, statefulsets w1, cronjobs w1) = (deployments wa, statefulsets wa, cronjobs wa)"
    using obeysD2 [OF scale_down_aws_keeps_k8s aws] by (simp add: keeps_def)
  then have "deployments w1 = deployments wa" "statefulsets w1 = statefulsets wa"
    "cronjobs w1 = cronjobs wa" by simp_all
  from scale_down_k8s_settles [OF k8s this]
  obtain v where k8s2: "scale_down_k8s k8s_resources exclude_k8s w1 = (Inr (), v)"
    and lv: "same_but_log w1 v" by blast
  have av: "asgs v = asgs w1" using same_but_log_fields [OF lv] by simp
  have "\<forall>n \<in> set (selected_asgs aws_asg_resources exclude_asgs v).
          \<exists>g. described n v = Some g \<and> \<not> not_scaled_down g"
    using scale_down_aws_settles [OF aws] selected_asgs_cong [OF av] described_cong [OF av]
    by simp
  from scale_down_aws_settled [OF this]
  obtain w2 where aws2: "scale_down_aws aws_asg_resources exclude_asgs v = (Inr (), w2)"
    and l2: "same_but_log v w2" by blast
  have run2: "scale_down k8s_resources aws_asg_resources exclude_k8s exclude_asgs w1 = (Inr (), w2)"
    using k8s2 aws2 by (simp add: scale_down_def io_bind_def)
  have l: "same_but_log w1 w2" using lv l2 by (rule same_but_log_trans)
  then have "\<exists>cs. w2 = w1\<lparr>calls := calls w1 @ cs\<rparr>" by (simp add: same_but_log_def)
  then show ?thesis using run2 same_but_log_fields [OF l] by blast
qed

text \<open>A second scale-down of the cluster that was at work.\<close>

theorem scale_down_twice_witness:
  "\<exists>w2. scale_down None None None None scaled_down_world = (Inr (), w2) \<and>
         deployments w2 = [\<lparr>namespace = ''default'', name = ''web'', replicas = 0\<rparr>] \<and>
         statefulsets w2 = [\<lparr>namespace = ''default'', name = ''db'', replicas = 0\<rparr>] \<and>
         cronjobs w2 = [\<lparr>namespace = ''default'', name = ''nightly'', suspend = True\<rparr>] \<and>
         ssm w2 = ssm scaled_down_world"
  using scale_down_twice [OF scale_down_busy_world]
  by (auto simp: scaled_down_world_def)

subsection \<open>Splitting a key\<close>

lemma split_not_Nil [simp]: "split sep s \<noteq> []"
  by (induction s) (auto split: list.splits)

lemma join_Cons_Cons: "ps \<noteq> [] \<Longrightarrow> join sep ((c # p) # ps) = c # join sep (p # ps)"
  by (cases ps) simp_all











lemma kind_key_cases:
  "kind_key k = ''deployment'' \<longleftrightarrow> k = Deployment"
  "kind_key k = ''statefulset'' \<longleftrightarrow> k = StatefulSet"
  by (cases k; simp add: kind_key_def)+

subsection \<open>The restore loop on workloads\<close>

lemma record_key_replicas [simp]: "record_key k (obj\<lparr>replicas := n\<rparr>) = record_key k obj"
  by (simp add: record_key_def)

lemma record_key_set_replicas [simp]: "record_key k (set_replicas r obj) = record_key k obj"
  by (cases r) simp_all

lemma names_set_replicas [simp]:
  "name (set_replicas r obj) = name obj" "namespace (set_replicas r obj) = namespace obj"
  by (cases r; simp)+






subsection \<open>What a scale-up does to the workloads\<close>






subsection \<open>What a scale-down captures\<close>








subsection \<open>Scale-down, then scale-up\<close>






lemma record_key_zero_if [simp]: "record_key k (zero_if ds obj) = record_key k obj"
  by (simp add: zero_if_def)








subsection \<open>A scale-up on a store it can replay completes\<close>











subsection \<open>A scale-down leaves a store a scale-up can replay\<close>


lemma existing_data_parameter:
  "map_of (ssm w') p = map_of (ssm w) p \<Longrightarrow> existing_data p w' = existing_data p w"
  by (simp add: existing_data_def)



















subsection \<open>The round trip\<close>


text \<open>
  A stale record in the workload entry does the same from inside the restore loop: the
  read of the Deployment that is gone raises \<open>ApiException\<close>, and the record of "web",
  which comes after it, is never replayed.
\<close>

lemma stale_workload_record_aborts:
  "wf_world stale_workload_world \<and>
   stored_record K8S_AWS_SSM_PARAMETER_NAME ''deployment/default/web'' stale_workload_world = None \<and>
   fst (scale_down None None None None stale_workload_world) = Inr () \<and>
   fst (scale_up (snd (scale_down None None None None stale_workload_world))) = Inl ApiException \<and>
   deployments (snd (scale_up (snd (scale_down None None None None stale_workload_world)))) =
     [\<lparr>namespace = ''default'', name = ''web'', replicas = 0\<rparr>]"
  by code_simp




end
